theory Spec2Isabelle
  imports Complex_Main "HOL-Library.Word"
begin

unbundle bit_operations_syntax

section \<open>The preview viewport (src/App.tsx, component PreviewPanel)\<close>

subsection \<open>Numbers\<close>

text \<open>
  A JavaScript \<open>number\<close> is an IEEE-754 binary64 value. The finite values are modelled as
  the reals they denote, and an arithmetic operation returns its exact result rounded to
  the nearest binary64 value, a tie going to the value with the even significand:
  \<open>round64\<close>. A significand has 53 bits. The exponent of a normal number lies between
  \<open>-1022\<close> and \<open>1023\<close>; below \<open>2^-1022\<close> the values are the multiples of \<open>2^-1074\<close>
  (the subnormal numbers). \<open>halvings\<close> and \<open>doublings\<close> find the exponent of a number
  above and below one.

  \<open>NaN\<close>, the infinities and the sign of zero are outside the model. \<open>round64\<close> is the
  rounding of IEEE-754 for a result of magnitude below \<open>2^1024\<close>; a larger result and a
  division by zero give an infinity or \<open>NaN\<close> in JavaScript. A statement below that
  depends on the value of a result bounds its inputs so that no result is that large.
\<close>

definition roundTiesToEven :: "real \<Rightarrow> int" where
  "roundTiesToEven x =
     (let n = \<lfloor>x\<rfloor>
      in if x - of_int n < 1 / 2 then n
         else if 1 / 2 < x - of_int n then n + 1
         else if even n then n else n + 1)"

function halvings :: "nat \<Rightarrow> real \<Rightarrow> nat" where
  "halvings k x = (if x < 2 \<or> 1023 \<le> k then k else halvings (k + 1) (x / 2))"
  by pat_completeness auto
termination
  by (relation "measure (\<lambda>(k, x). 1023 - k)") auto

function doublings :: "nat \<Rightarrow> real \<Rightarrow> nat" where
  "doublings k x = (if 1 \<le> x \<or> 1022 \<le> k then k else doublings (k + 1) (x * 2))"
  by pat_completeness auto
termination
  by (relation "measure (\<lambda>(k, x). 1022 - k)") auto

declare halvings.simps [simp del] doublings.simps [simp del]

definition round64 :: "real \<Rightarrow> real" where
  "round64 x =
     (if x = 0 then 0
      else if 1 \<le> \<bar>x\<bar> then
        (let k = halvings 0 \<bar>x\<bar>
         in of_int (roundTiesToEven (x / 2 ^ k * 2 ^ 52)) * 2 ^ k / 2 ^ 52)
      else
        (let k = doublings 0 \<bar>x\<bar>
         in of_int (roundTiesToEven (x * 2 ^ k * 2 ^ 52)) / 2 ^ k / 2 ^ 52))"

text \<open>The operators \<open>+\<close>, \<open>-\<close>, \<open>*\<close> and \<open>/\<close> of JavaScript on finite numbers.\<close>

definition add64 :: "real \<Rightarrow> real \<Rightarrow> real" where
  "add64 a b = round64 (a + b)"

definition sub64 :: "real \<Rightarrow> real \<Rightarrow> real" where
  "sub64 a b = round64 (a - b)"

definition mul64 :: "real \<Rightarrow> real \<Rightarrow> real" where
  "mul64 a b = round64 (a * b)"

definition div64 :: "real \<Rightarrow> real \<Rightarrow> real" where
  "div64 a b = round64 (a / b)"

subsection \<open>The panel\<close>

text \<open>
  Coordinates and scales are numbers; pointer ids and mouse buttons are integers.
\<close>

record Transform =
  tr_x :: real
  tr_y :: real
  tr_scale :: real

record DragState =
  pointerId :: int
  startClientX :: real
  startClientY :: real
  startX :: real
  startY :: real

record SvgSize =
  sv_width :: real
  sv_height :: real

text \<open>
  The viewport element behind \<open>viewportRef\<close>: its client box and the origin of its
  bounding rectangle, the only properties the handlers read.
\<close>

record Viewport =
  clientWidth :: real
  clientHeight :: real
  rectLeft :: real
  rectTop :: real

record PointerEvent =
  ev_button :: int
  ev_pointerId :: int
  ev_clientX :: real
  ev_clientY :: real

record WheelEvent =
  wh_deltaY :: real
  wh_clientX :: real
  wh_clientY :: real

text \<open>
  The state of the panel: the React state cells \<open>svgSize\<close> and \<open>transform\<close> and the refs
  \<open>viewportRef\<close>, \<open>transformRef\<close> and \<open>dragRef\<close> (\<open>None\<close> is \<open>null\<close>).
\<close>

record Preview =
  svgSize :: "SvgSize option"
  transform :: Transform
  viewportRef :: "Viewport option"
  transformRef :: Transform
  dragRef :: "DragState option"

text \<open>
  A numeric literal denotes the binary64 value nearest to it: \<open>0.2\<close>, \<open>1.08\<close> and \<open>0.92\<close>
  are rounded, the integers \<open>16\<close>, \<open>48\<close> and \<open>2\<close> are binary64 values as they stand.
\<close>

definition MIN_SCALE :: real where
  "MIN_SCALE = round64 (2 / 10)"

definition MAX_SCALE :: real where
  "MAX_SCALE = 16"

definition clamp :: "real \<Rightarrow> real \<Rightarrow> real \<Rightarrow> real" where
  "clamp v lo hi = min hi (max lo v)"

definition initialPreview :: Preview where
  "initialPreview =
     \<lparr>svgSize = None,
      transform = \<lparr>tr_x = 0, tr_y = 0, tr_scale = 1\<rparr>,
      viewportRef = None,
      transformRef = \<lparr>tr_x = 0, tr_y = 0, tr_scale = 1\<rparr>,
      dragRef = None\<rparr>"

text \<open>The updater that \<open>applyZoomAroundPoint\<close> hands to \<open>setTransform\<close>.\<close>

definition zoomedAround :: "real \<Rightarrow> real \<Rightarrow> real \<Rightarrow> Transform \<Rightarrow> Transform" where
  "zoomedAround nextScale anchorX anchorY cur =
     (let scale = clamp nextScale MIN_SCALE MAX_SCALE;
          wx = div64 (sub64 anchorX (tr_x cur)) (tr_scale cur);
          wy = div64 (sub64 anchorY (tr_y cur)) (tr_scale cur)
      in \<lparr>tr_x = sub64 anchorX (mul64 wx scale), tr_y = sub64 anchorY (mul64 wy scale),
          tr_scale = scale\<rparr>)"

definition applyZoomAroundPoint :: "real \<Rightarrow> real \<Rightarrow> real \<Rightarrow> Preview \<Rightarrow> Preview" where
  "applyZoomAroundPoint nextScale anchorX anchorY s =
     s\<lparr>transform := zoomedAround nextScale anchorX anchorY (transform s)\<rparr>"

definition fitToView :: "Preview \<Rightarrow> Preview" where
  "fitToView s =
     (case svgSize s of
        None \<Rightarrow> s
      | Some sz \<Rightarrow>
          (case viewportRef s of
             None \<Rightarrow> s
           | Some vp \<Rightarrow>
               (let pad = 48;
                    rawScale = min (div64 (sub64 (clientWidth vp) pad) (sv_width sz))
                                   (div64 (sub64 (clientHeight vp) pad) (sv_height sz));
                    scale = clamp rawScale MIN_SCALE MAX_SCALE
                in s\<lparr>transform :=
                       \<lparr>tr_x = div64 (sub64 (clientWidth vp) (mul64 (sv_width sz) scale)) 2,
                        tr_y = div64 (sub64 (clientHeight vp) (mul64 (sv_height sz) scale)) 2,
                        tr_scale = scale\<rparr>\<rparr>)))"

definition zoomToScale :: "real \<Rightarrow> Preview \<Rightarrow> Preview" where
  "zoomToScale nextScale s =
     (case viewportRef s of
        None \<Rightarrow> s
      | Some vp \<Rightarrow>
          applyZoomAroundPoint nextScale (div64 (clientWidth vp) 2) (div64 (clientHeight vp) 2) s)"

definition zoomByFactor :: "real \<Rightarrow> Preview \<Rightarrow> Preview" where
  "zoomByFactor factor s = zoomToScale (mul64 (tr_scale (transformRef s)) factor) s"

definition handleWheelZoom :: "WheelEvent \<Rightarrow> Preview \<Rightarrow> Preview" where
  "handleWheelZoom event s =
     (case viewportRef s of
        None \<Rightarrow> s
      | Some vp \<Rightarrow>
          applyZoomAroundPoint
            (mul64 (tr_scale (transformRef s))
               (if wh_deltaY event < 0 then round64 (108 / 100) else round64 (92 / 100)))
            (sub64 (wh_clientX event) (rectLeft vp))
            (sub64 (wh_clientY event) (rectTop vp)) s)"

definition handlePointerDown :: "PointerEvent \<Rightarrow> Preview \<Rightarrow> Preview" where
  "handlePointerDown event s =
     (if ev_button event \<noteq> 0 then s
      else s\<lparr>dragRef :=
               Some \<lparr>pointerId = ev_pointerId event,
                     startClientX = ev_clientX event,
                     startClientY = ev_clientY event,
                     startX = tr_x (transformRef s),
                     startY = tr_y (transformRef s)\<rparr>\<rparr>)"

definition handlePointerMove :: "PointerEvent \<Rightarrow> Preview \<Rightarrow> Preview" where
  "handlePointerMove event s =
     (case dragRef s of
        None \<Rightarrow> s
      | Some drag \<Rightarrow>
          if pointerId drag \<noteq> ev_pointerId event then s
          else s\<lparr>transform :=
                   (transform s)
                     \<lparr>tr_x := sub64 (add64 (startX drag) (ev_clientX event)) (startClientX drag),
                      tr_y := sub64 (add64 (startY drag) (ev_clientY event)) (startClientY drag)\<rparr>\<rparr>)"

text \<open>\<open>handlePointerUp\<close> serves both \<open>onPointerUp\<close> and \<open>onPointerCancel\<close>.\<close>

definition handlePointerUp :: "PointerEvent \<Rightarrow> Preview \<Rightarrow> Preview" where
  "handlePointerUp event s =
     (case dragRef s of
        None \<Rightarrow> s
      | Some drag \<Rightarrow>
          if pointerId drag \<noteq> ev_pointerId event then s
          else s\<lparr>dragRef := None\<rparr>)"

text \<open>The effect \<open>transformRef.current = transform\<close>, run after a render of the panel.\<close>

definition syncTransformRef :: "Preview \<Rightarrow> Preview" where
  "syncTransformRef s = s\<lparr>transformRef := transform s\<rparr>"

text \<open>
  Everything that can happen to the panel: the five viewport operations, the wheel and
  pointer handlers, the effect above, a new measured size of the picture and the mounting
  or resizing of the viewport element.
\<close>

datatype ViewOp =
    ApplyZoomAroundPoint real real real
  | ZoomToScale real
  | ZoomByFactor real
  | FitToView
  | WheelZoom WheelEvent
  | PointerDown PointerEvent
  | PointerMove PointerEvent
  | PointerUp PointerEvent
  | SyncTransformRef
  | SetSvgSize "SvgSize option"
  | SetViewport "Viewport option"

fun viewStep :: "ViewOp \<Rightarrow> Preview \<Rightarrow> Preview" where
  "viewStep (ApplyZoomAroundPoint n ax ay) s = applyZoomAroundPoint n ax ay s"
| "viewStep (ZoomToScale n) s = zoomToScale n s"
| "viewStep (ZoomByFactor f) s = zoomByFactor f s"
| "viewStep FitToView s = fitToView s"
| "viewStep (WheelZoom e) s = handleWheelZoom e s"
| "viewStep (PointerDown e) s = handlePointerDown e s"
| "viewStep (PointerMove e) s = handlePointerMove e s"
| "viewStep (PointerUp e) s = handlePointerUp e s"
| "viewStep SyncTransformRef s = syncTransformRef s"
| "viewStep (SetSvgSize z) s = s\<lparr>svgSize := z\<rparr>"
| "viewStep (SetViewport v) s = s\<lparr>viewportRef := v\<rparr>"

fun viewRun :: "ViewOp list \<Rightarrow> Preview \<Rightarrow> Preview" where
  "viewRun [] s = s"
| "viewRun (op # ops) s = viewRun ops (viewStep op s)"

definition scaleInRange :: "Preview \<Rightarrow> bool" where
  "scaleInRange s \<longleftrightarrow>
     MIN_SCALE \<le> tr_scale (transform s) \<and> tr_scale (transform s) \<le> MAX_SCALE"

text \<open>
  The coordinate of the content point under a pixel, for a translation \<open>offset\<close> and a
  scale: \<open>(pixel - offset) / scale\<close>, evaluated in binary64 as \<open>applyZoomAroundPoint\<close>
  evaluates \<open>wx\<close> and \<open>wy\<close>.
\<close>

definition contentUnder :: "real \<Rightarrow> real \<Rightarrow> real \<Rightarrow> real" where
  "contentUnder pixel offset scale = div64 (sub64 pixel offset) scale"

section \<open>The render scheduler (src/App.tsx, component App)\<close>

text \<open>
  The scheduler never inspects the text it passes around (diagram source, markup, error
  messages), so these strings are modelled as \<open>string\<close>. Time is counted in whole
  milliseconds.
\<close>

datatype RenderStyle = Svg | Unicode | Ascii

text \<open>
  What a \<open>catch\<close> can receive: an \<open>Error\<close> object with its \<open>message\<close>, or any other
  value, given by what \<open>String(error)\<close> makes of it.
\<close>

datatype thrown = ErrorObject string | OtherValue string

fun errorText :: "thrown \<Rightarrow> string" where
  "errorText (ErrorObject message) = message"
| "errorText (OtherValue text) = text"

text \<open>How a call of the external renderer ends: with markup, or by throwing.\<close>

datatype outcome = Rendered string | Threw thrown

text \<open>
  A timeout created by \<open>handleSourceInput\<close> and not yet run or cleared: its id, the time
  it is due and what its callback closes over (the edited text, and the render style
  that \<open>renderDiagramForSource\<close> had captured when the edit was made).
\<close>

record timer =
  tm_id :: nat
  tm_due :: nat
  tm_source :: string
  tm_style :: RenderStyle

record renderCall =
  rc_requestId :: nat
  rc_source :: string
  rc_style :: RenderStyle

text \<open>
  The state of the component that the scheduler touches. \<open>timers\<close> is the part of the
  event loop's timer queue that belongs to \<open>sourceCommitTimeoutRef\<close>, in creation order
  (all have the same delay, so that is the order in which they fall due);
  \<open>nextTimerId\<close> is the id the next \<open>setTimeout\<close> returns (ids are positive, so an id is
  truthy and \<open>None\<close> stands for \<open>null\<close>); \<open>renderCalls\<close> logs every call of the external
  renderer made by \<open>renderDiagramForSource\<close>.
\<close>

record Session =
  now :: nat
  timers :: "timer list"
  nextTimerId :: nat
  sourceRef :: string
  sourceCommitTimeoutRef :: "nat option"
  requestIdRef :: nat
  renderStyle :: RenderStyle
  svgMarkup :: string
  asciiMarkup :: string
  renderError :: string
  renderCalls :: "renderCall list"

definition initialSession :: "string \<Rightarrow> Session" where
  "initialSession preset =
     \<lparr>now = 0, timers = [], nextTimerId = 1, sourceRef = preset,
      sourceCommitTimeoutRef = None, requestIdRef = 0, renderStyle = Svg,
      svgMarkup = [], asciiMarkup = [], renderError = [], renderCalls = []\<rparr>"

text \<open>
  \<open>++requestIdRef.current\<close> on a double that counts up from 0: exact below \<open>2^53\<close>, where
  \<open>n + 1\<close> rounds back to \<open>n\<close>.
\<close>

definition preIncrement :: "nat \<Rightarrow> nat" where
  "preIncrement n = (if n < 2 ^ 53 then n + 1 else n)"

text \<open>
  The continuation of \<open>renderDiagramForSource\<close> after the renderer has answered, for the
  request stamped \<open>requestId\<close> that was issued under render style \<open>style\<close>.
\<close>

definition settle :: "nat \<Rightarrow> RenderStyle \<Rightarrow> outcome \<Rightarrow> Session \<Rightarrow> Session" where
  "settle requestId style result s =
     (if requestId \<noteq> requestIdRef s then s
      else
        (case result of
           Rendered markup \<Rightarrow>
             (if style = Svg
              then s\<lparr>renderError := [], svgMarkup := markup, asciiMarkup := []\<rparr>
              else s\<lparr>renderError := [], asciiMarkup := markup, svgMarkup := []\<rparr>)
         | Threw error \<Rightarrow>
             s\<lparr>renderError := errorText error, svgMarkup := [], asciiMarkup := []\<rparr>))"

text \<open>
  \<open>renderDiagramForSource\<close>: the request is stamped and the renderer called. The SVG
  renderer is awaited, so the call returns with the request in flight and \<open>settle\<close> runs
  later, as an event of its own; the text renderer \<open>renderMermaidASCII\<close> (a parameter:
  source and \<open>useAscii\<close> to outcome) answers at once.
\<close>

definition renderDiagramForSource ::
  "(string \<Rightarrow> bool \<Rightarrow> outcome) \<Rightarrow> RenderStyle \<Rightarrow> string \<Rightarrow> Session \<Rightarrow> Session" where
  "renderDiagramForSource renderMermaidASCII style nextSource s =
     (let requestId = preIncrement (requestIdRef s);
          s1 = s\<lparr>requestIdRef := requestId,
                 renderCalls := renderCalls s @
                   [\<lparr>rc_requestId = requestId, rc_source = nextSource, rc_style = style\<rparr>]\<rparr>
      in if style = Svg then s1
         else settle requestId style (renderMermaidASCII nextSource (style = Ascii)) s1)"

definition clearTimeout :: "nat \<Rightarrow> Session \<Rightarrow> Session" where
  "clearTimeout i s = s\<lparr>timers := filter (\<lambda>t. tm_id t \<noteq> i) (timers s)\<rparr>"

definition setTimeout :: "string \<Rightarrow> RenderStyle \<Rightarrow> nat \<Rightarrow> Session \<Rightarrow> nat \<times> Session" where
  "setTimeout source style delay s =
     (nextTimerId s,
      s\<lparr>timers := timers s @
           [\<lparr>tm_id = nextTimerId s, tm_due = now s + delay,
             tm_source = source, tm_style = style\<rparr>],
        nextTimerId := nextTimerId s + 1\<rparr>)"

definition handleSourceInput :: "string \<Rightarrow> Session \<Rightarrow> Session" where
  "handleSourceInput nextSource s =
     (let s1 = s\<lparr>sourceRef := nextSource\<rparr>;
          s2 = (case sourceCommitTimeoutRef s1 of
                  None \<Rightarrow> s1
                | Some i \<Rightarrow> clearTimeout i s1);
          (i, s3) = setTimeout nextSource (renderStyle s) 120 s2
      in s3\<lparr>sourceCommitTimeoutRef := Some i\<rparr>)"

definition commitSourceNow :: "(string \<Rightarrow> bool \<Rightarrow> outcome) \<Rightarrow> string \<Rightarrow> Session \<Rightarrow> Session" where
  "commitSourceNow renderMermaidASCII nextSource s =
     (let s1 = s\<lparr>sourceRef := nextSource\<rparr>;
          s2 = (case sourceCommitTimeoutRef s1 of
                  None \<Rightarrow> s1
                | Some i \<Rightarrow> (clearTimeout i s1)\<lparr>sourceCommitTimeoutRef := None\<rparr>)
      in renderDiagramForSource renderMermaidASCII (renderStyle s) nextSource s2)"

text \<open>
  The callback of a timeout (the share-link synchronisation it also starts touches only
  the address bar and is left out).
\<close>

definition runTimer :: "(string \<Rightarrow> bool \<Rightarrow> outcome) \<Rightarrow> Session \<Rightarrow> timer \<Rightarrow> Session" where
  "runTimer renderMermaidASCII s t =
     (renderDiagramForSource renderMermaidASCII (tm_style t) (tm_source t) s)
       \<lparr>sourceCommitTimeoutRef := None\<rparr>"

text \<open>
  \<open>elapse d\<close>: \<open>d\<close> milliseconds pass with no other event; every timeout that falls due
  in that time leaves the queue and runs.
\<close>

definition elapse :: "(string \<Rightarrow> bool \<Rightarrow> outcome) \<Rightarrow> nat \<Rightarrow> Session \<Rightarrow> Session" where
  "elapse renderMermaidASCII d s =
     (let t' = now s + d
      in foldl (runTimer renderMermaidASCII)
           (s\<lparr>now := t', timers := filter (\<lambda>t. \<not> tm_due t \<le> t') (timers s)\<rparr>)
           (filter (\<lambda>t. tm_due t \<le> t') (timers s)))"

text \<open>
  A burst of edits: each entry is the time since the previous event and the text of the
  edit.
\<close>

fun edits :: "(string \<Rightarrow> bool \<Rightarrow> outcome) \<Rightarrow> (nat \<times> string) list \<Rightarrow> Session \<Rightarrow> Session" where
  "edits R [] s = s"
| "edits R ((gap, source) # rest) s = edits R rest (handleSourceInput source (elapse R gap s))"

text \<open>
  The ref and the queue agree: the ref is \<open>null\<close> and nothing is queued, or the ref holds
  the id of the one queued timeout.
\<close>

definition timerTracked :: "Session \<Rightarrow> bool" where
  "timerTracked s \<longleftrightarrow>
     (case sourceCommitTimeoutRef s of
        None \<Rightarrow> timers s = []
      | Some i \<Rightarrow> map tm_id (timers s) = [i])"

text \<open>What the preview shows: SVG markup, text markup, error message.\<close>

definition displayed :: "Session \<Rightarrow> string \<times> string \<times> string" where
  "displayed s = (svgMarkup s, asciiMarkup s, renderError s)"

text \<open>Between two edits of a burst: exactly one timeout is queued, held by the ref.\<close>

definition pendingEdit :: "Session \<Rightarrow> Session \<Rightarrow> string \<Rightarrow> bool" where
  "pendingEdit s0 s src \<longleftrightarrow>
     (\<exists>t. timers s = [t] \<and> sourceCommitTimeoutRef s = Some (tm_id t) \<and>
          tm_due t = now s + 120 \<and> tm_source t = src \<and> tm_style t = renderStyle s0) \<and>
     renderCalls s = renderCalls s0 \<and> requestIdRef s = requestIdRef s0 \<and>
     renderStyle s = renderStyle s0"

section \<open>The share-link codec (src/lib/share-link.ts)\<close>

text \<open>
  A JavaScript string is a sequence of 16-bit code units, a \<open>Uint8Array\<close> a sequence of
  bytes. \<open>js\<close> writes a string of Latin-1 characters as code units. The functions of the
  platform that the module calls (\<open>startsWith\<close>, \<open>slice\<close>, \<open>replace\<close>, \<open>TextEncoder\<close>,
  \<open>TextDecoder\<close>, \<open>btoa\<close>, \<open>atob\<close>, \<open>URL\<close>, \<open>URLSearchParams\<close>) are not code of the
  repository; they are modelled after the standards that define them (ECMAScript, WebIDL
  and the WHATWG standards for encodings, for base64 and for URLs).
\<close>

type_synonym byte = "8 word"
type_synonym jsstring = "16 word list"

definition js :: "string \<Rightarrow> jsstring" where
  "js cs = map of_char cs"

definition startsWith :: "jsstring \<Rightarrow> jsstring \<Rightarrow> bool" where
  "startsWith s p \<longleftrightarrow> take (length p) s = p"

definition slice :: "jsstring \<Rightarrow> nat \<Rightarrow> jsstring" where
  "slice s n = drop n s"

definition replaceAll :: "16 word \<Rightarrow> 16 word \<Rightarrow> jsstring \<Rightarrow> jsstring" where
  "replaceAll a b s = map (\<lambda>c. if c = a then b else c) s"

subsection \<open>TextEncoder and TextDecoder\<close>

text \<open>
  A string that reaches a Web API as text is first read as a sequence of scalar values:
  a surrogate pair is one code point, a surrogate that stands alone becomes U+FFFD.
\<close>

definition isHighSurrogate :: "nat \<Rightarrow> bool" where
  "isHighSurrogate u \<longleftrightarrow> 0xD800 \<le> u \<and> u \<le> 0xDBFF"

definition isLowSurrogate :: "nat \<Rightarrow> bool" where
  "isLowSurrogate u \<longleftrightarrow> 0xDC00 \<le> u \<and> u \<le> 0xDFFF"

fun toScalarValues :: "jsstring \<Rightarrow> nat list" where
  "toScalarValues [] = []"
| "toScalarValues [c] =
     (if isHighSurrogate (unat c) \<or> isLowSurrogate (unat c) then [0xFFFD] else [unat c])"
| "toScalarValues (c # d # rest) =
     (if isHighSurrogate (unat c) then
        (if isLowSurrogate (unat d)
         then (0x10000 + (unat c - 0xD800) * 0x400 + (unat d - 0xDC00)) # toScalarValues rest
         else 0xFFFD # toScalarValues (d # rest))
      else if isLowSurrogate (unat c) then 0xFFFD # toScalarValues (d # rest)
      else unat c # toScalarValues (d # rest))"

definition utf16Encode1 :: "nat \<Rightarrow> jsstring" where
  "utf16Encode1 cp =
     (if cp < 0x10000 then [of_nat cp]
      else [of_nat (0xD800 + (cp - 0x10000) div 0x400), of_nat (0xDC00 + (cp - 0x10000) mod 0x400)])"

definition fromScalarValues :: "nat list \<Rightarrow> jsstring" where
  "fromScalarValues cps = concat (map utf16Encode1 cps)"

definition utf8Encode1 :: "nat \<Rightarrow> byte list" where
  "utf8Encode1 cp =
     (if cp < 0x80 then [of_nat cp]
      else if cp < 0x800 then [of_nat (0xC0 + cp div 0x40), of_nat (0x80 + cp mod 0x40)]
      else if cp < 0x10000 then
        [of_nat (0xE0 + cp div 0x1000), of_nat (0x80 + cp div 0x40 mod 0x40),
         of_nat (0x80 + cp mod 0x40)]
      else
        [of_nat (0xF0 + cp div 0x40000), of_nat (0x80 + cp div 0x1000 mod 0x40),
         of_nat (0x80 + cp div 0x40 mod 0x40), of_nat (0x80 + cp mod 0x40)])"

definition utf8Encode :: "nat list \<Rightarrow> byte list" where
  "utf8Encode cps = concat (map utf8Encode1 cps)"

text \<open>
  The UTF-8 decoder of the Encoding standard, in its default, non-fatal mode: a byte that
  cannot continue the sequence gives U+FFFD and is read again as the start of a new
  sequence. The state is the code point collected so far, the number of continuation
  bytes still needed and the bounds for the next byte.
\<close>

function utf8Decode :: "nat \<Rightarrow> nat \<Rightarrow> nat \<Rightarrow> nat \<Rightarrow> byte list \<Rightarrow> nat list" where
  "utf8Decode cp needed lower upper [] = (if needed \<noteq> 0 then [0xFFFD] else [])"
| "utf8Decode cp needed lower upper (b # bs) =
     (if needed = 0 then
        (if unat b \<le> 0x7F then unat b # utf8Decode 0 0 0x80 0xBF bs
         else if 0xC2 \<le> unat b \<and> unat b \<le> 0xDF
           then utf8Decode (unat b mod 0x20) 1 0x80 0xBF bs
         else if 0xE0 \<le> unat b \<and> unat b \<le> 0xEF
           then utf8Decode (unat b mod 0x10) 2
                  (if unat b = 0xE0 then 0xA0 else 0x80) (if unat b = 0xED then 0x9F else 0xBF) bs
         else if 0xF0 \<le> unat b \<and> unat b \<le> 0xF4
           then utf8Decode (unat b mod 0x08) 3
                  (if unat b = 0xF0 then 0x90 else 0x80) (if unat b = 0xF4 then 0x8F else 0xBF) bs
         else 0xFFFD # utf8Decode 0 0 0x80 0xBF bs)
      else if \<not> (lower \<le> unat b \<and> unat b \<le> upper)
        then 0xFFFD # utf8Decode 0 0 0x80 0xBF (b # bs)
      else if needed = 1
        then (cp * 0x40 + unat b mod 0x40) # utf8Decode 0 0 0x80 0xBF bs
      else utf8Decode (cp * 0x40 + unat b mod 0x40) (needed - 1) 0x80 0xBF bs)"
  by pat_completeness auto
termination
  by (relation "measure (\<lambda>(cp, needed, lower, upper, bs). 2 * length bs + (if needed = 0 then 0 else 1))")
    auto

definition textEncoderEncode :: "jsstring \<Rightarrow> byte list" where
  "textEncoderEncode s = utf8Encode (toScalarValues s)"

text \<open>
  \<open>new TextDecoder()\<close> has \<open>ignoreBOM = false\<close>: a byte order mark at the start of the
  input is not part of the decoded text.
\<close>

fun dropBOM :: "nat list \<Rightarrow> nat list" where
  "dropBOM (cp # cps) = (if cp = 0xFEFF then cps else cp # cps)"
| "dropBOM [] = []"

definition textDecoderDecode :: "byte list \<Rightarrow> jsstring" where
  "textDecoderDecode bytes = fromScalarValues (dropBOM (utf8Decode 0 0 0x80 0xBF bytes))"

subsection \<open>btoa and atob\<close>

text \<open>
  \<open>btoa\<close> refuses a code unit above \<open>0xFF\<close>. \<open>atob\<close> is the forgiving base64 decoder of
  the web platform: ASCII whitespace is removed, one or two padding characters are
  dropped when the length is a multiple of four, and a remaining length of \<open>1 mod 4\<close> or a
  character outside the alphabet is an \<open>InvalidCharacterError\<close>.
\<close>

definition base64Alphabet :: jsstring where
  "base64Alphabet = js ''ABCDEFGHIJKLMNOPQRSTUVWXYZabcdefghijklmnopqrstuvwxyz0123456789+/''"

definition base64Char :: "nat \<Rightarrow> 16 word" where
  "base64Char n = base64Alphabet ! n"

fun indexOf :: "'a \<Rightarrow> 'a list \<Rightarrow> nat option" where
  "indexOf x [] = None"
| "indexOf x (y # ys) = (if x = y then Some 0 else map_option (\<lambda>i. i + 1) (indexOf x ys))"

definition base64Value :: "16 word \<Rightarrow> nat option" where
  "base64Value c = indexOf c base64Alphabet"

fun base64Encode :: "byte list \<Rightarrow> jsstring" where
  "base64Encode (a # b # c # rest) =
     [base64Char (unat a div 4),
      base64Char (unat a mod 4 * 16 + unat b div 16),
      base64Char (unat b mod 16 * 4 + unat c div 64),
      base64Char (unat c mod 64)] @ base64Encode rest"
| "base64Encode [a, b] =
     [base64Char (unat a div 4),
      base64Char (unat a mod 4 * 16 + unat b div 16),
      base64Char (unat b mod 16 * 4),
      0x3D]"
| "base64Encode [a] =
     [base64Char (unat a div 4), base64Char (unat a mod 4 * 16), 0x3D, 0x3D]"
| "base64Encode [] = []"

fun base64Decode :: "nat list \<Rightarrow> byte list" where
  "base64Decode (p # q # r # s # rest) =
     [of_nat (p * 4 + q div 16), of_nat (q mod 16 * 16 + r div 4), of_nat (r mod 4 * 64 + s)]
     @ base64Decode rest"
| "base64Decode [p, q, r] = [of_nat (p * 4 + q div 16), of_nat (q mod 16 * 16 + r div 4)]"
| "base64Decode [p, q] = [of_nat (p * 4 + q div 16)]"
| "base64Decode [p] = []"
| "base64Decode [] = []"

text \<open>
  What the module can throw: its own two errors, the \<open>InvalidCharacterError\<close> of \<open>atob\<close>
  and \<open>btoa\<close>, and the failure of a decompressor.
\<close>

datatype error = PayloadEmpty | UnsupportedVersion | InvalidCharacter | CorruptStream

definition btoa :: "jsstring \<Rightarrow> error + jsstring" where
  "btoa s =
     (if list_ex (\<lambda>c. 0xFF < c) s then Inl InvalidCharacter
      else Inr (base64Encode (map ucast s)))"

definition isAsciiWhitespace :: "16 word \<Rightarrow> bool" where
  "isAsciiWhitespace c \<longleftrightarrow> c = 0x09 \<or> c = 0x0A \<or> c = 0x0C \<or> c = 0x0D \<or> c = 0x20"

definition dropEquals :: "jsstring \<Rightarrow> jsstring" where
  "dropEquals s = (if s \<noteq> [] \<and> last s = 0x3D then butlast s else s)"

definition atob :: "jsstring \<Rightarrow> error + jsstring" where
  "atob input =
     (let d1 = filter (\<lambda>c. \<not> isAsciiWhitespace c) input;
          d2 = (if length d1 mod 4 = 0 then dropEquals (dropEquals d1) else d1)
      in if length d2 mod 4 = 1 then Inl InvalidCharacter
         else
           (case those (map base64Value d2) of
              None \<Rightarrow> Inl InvalidCharacter
            | Some sextets \<Rightarrow> Inr (map ucast (base64Decode sextets))))"

subsection \<open>The functions of share-link.ts\<close>

definition SHARE_VERSION :: jsstring where "SHARE_VERSION = js ''v1''"
definition SHARE_ALGORITHM :: jsstring where "SHARE_ALGORITHM = js ''d''"
definition SHARE_PREFIX :: jsstring where
  "SHARE_PREFIX = SHARE_VERSION @ js ''.'' @ SHARE_ALGORITHM @ js ''.''"
definition SHARE_PARAM :: jsstring where "SHARE_PARAM = js ''diagram''"

text \<open>
  The loop of \<open>bytesToBase64Url\<close> that builds the binary string in chunks of \<open>0x8000\<close>
  bytes, from \<open>offset\<close> on.
\<close>

function binaryChunks :: "nat \<Rightarrow> byte list \<Rightarrow> jsstring" where
  "binaryChunks offset bytes =
     (if offset < length bytes
      then map ucast (take 0x8000 (drop offset bytes)) @ binaryChunks (offset + 0x8000) bytes
      else [])"
  by pat_completeness auto
termination
  by (relation "measure (\<lambda>(offset, bytes). length bytes - offset)") auto

declare binaryChunks.simps [simp del]

fun stripTrailingEquals :: "jsstring \<Rightarrow> jsstring" where
  "stripTrailingEquals s = rev (dropWhile (\<lambda>c. c = 0x3D) (rev s))"

definition bytesToBase64Url :: "byte list \<Rightarrow> error + jsstring" where
  "bytesToBase64Url bytes =
     (case btoa (binaryChunks 0 bytes) of
        Inl e \<Rightarrow> Inl e
      | Inr b64 \<Rightarrow> Inr (stripTrailingEquals (replaceAll 0x2F 0x5F (replaceAll 0x2B 0x2D b64))))"

definition base64UrlToBytes :: "jsstring \<Rightarrow> error + byte list" where
  "base64UrlToBytes encoded =
     (if encoded = [] then Inl PayloadEmpty
      else
        (let normalized = replaceAll 0x5F 0x2F (replaceAll 0x2D 0x2B encoded);
             padded = normalized @ replicate ((4 - length normalized mod 4) mod 4) 0x3D
         in case atob padded of
              Inl e \<Rightarrow> Inl e
            | Inr binary \<Rightarrow> Inr (map ucast binary)))"

text \<open>
  The two compression backends are outside the repository: the platform's
  \<open>CompressionStream("deflate")\<close> and \<open>DecompressionStream("deflate")\<close>, and
  \<open>deflateSync\<close> (at level 9) and \<open>inflateSync\<close> of the fflate package. They are
  parameters of the model, together with the result of \<open>supportsCompressionStream()\<close>; a
  decompressor that rejects its input returns \<open>None\<close>.
\<close>

record Platform =
  supportsCompressionStream :: bool
  compressionStream :: "byte list \<Rightarrow> byte list"
  decompressionStream :: "byte list \<Rightarrow> byte list option"
  deflateSync :: "byte list \<Rightarrow> byte list"
  inflateSync :: "byte list \<Rightarrow> byte list option"

definition compressBytes :: "Platform \<Rightarrow> byte list \<Rightarrow> byte list" where
  "compressBytes P bytes =
     (if supportsCompressionStream P then compressionStream P bytes else deflateSync P bytes)"

definition decompressBytes :: "Platform \<Rightarrow> byte list \<Rightarrow> error + byte list" where
  "decompressBytes P bytes =
     (case (if supportsCompressionStream P then decompressionStream P bytes
            else inflateSync P bytes) of
        None \<Rightarrow> Inl CorruptStream
      | Some out \<Rightarrow> Inr out)"

definition getPayloadFromToken :: "jsstring \<Rightarrow> error + jsstring" where
  "getPayloadFromToken token =
     (if startsWith token SHARE_PREFIX then Inr (slice token (length SHARE_PREFIX))
      else if startsWith token (SHARE_VERSION @ js ''.'') then Inl UnsupportedVersion
      else Inr token)"

definition encodeDiagramToken :: "Platform \<Rightarrow> jsstring \<Rightarrow> error + jsstring" where
  "encodeDiagramToken P source =
     (let compressed = compressBytes P (textEncoderEncode source)
      in case bytesToBase64Url compressed of
           Inl e \<Rightarrow> Inl e
         | Inr payload \<Rightarrow> Inr (SHARE_PREFIX @ payload))"

definition decodeDiagramToken :: "Platform \<Rightarrow> jsstring \<Rightarrow> error + jsstring" where
  "decodeDiagramToken P token =
     (case getPayloadFromToken token of
        Inl e \<Rightarrow> Inl e
      | Inr payload \<Rightarrow>
          (case base64UrlToBytes payload of
             Inl e \<Rightarrow> Inl e
           | Inr compressed \<Rightarrow>
               (case decompressBytes P compressed of
                  Inl e \<Rightarrow> Inl e
                | Inr decompressed \<Rightarrow> Inr (textDecoderDecode decompressed))))"

subsection \<open>Predicates and auxiliary functions for the proofs\<close>

text \<open>
  Scalar values; strings without a lone surrogate (\<open>String.prototype.isWellFormed\<close>);
  the sextets and the number of padding characters of the base64 encoding of a byte
  sequence; the two replacements that make base64 URL-safe.
\<close>

definition isScalarValue :: "nat \<Rightarrow> bool" where
  "isScalarValue cp \<longleftrightarrow> cp < 0xD800 \<or> (0xE000 \<le> cp \<and> cp < 0x110000)"

fun isWellFormed :: "jsstring \<Rightarrow> bool" where
  "isWellFormed [] = True"
| "isWellFormed [c] = (\<not> isHighSurrogate (unat c) \<and> \<not> isLowSurrogate (unat c))"
| "isWellFormed (c # d # rest) =
     (if isHighSurrogate (unat c) then isLowSurrogate (unat d) \<and> isWellFormed rest
      else \<not> isLowSurrogate (unat c) \<and> isWellFormed (d # rest))"

fun toSextets :: "byte list \<Rightarrow> nat list" where
  "toSextets (a # b # c # rest) =
     [unat a div 4, unat a mod 4 * 16 + unat b div 16, unat b mod 16 * 4 + unat c div 64,
      unat c mod 64] @ toSextets rest"
| "toSextets [a, b] = [unat a div 4, unat a mod 4 * 16 + unat b div 16, unat b mod 16 * 4]"
| "toSextets [a] = [unat a div 4, unat a mod 4 * 16]"
| "toSextets [] = []"

fun padLength :: "byte list \<Rightarrow> nat" where
  "padLength (a # b # c # rest) = padLength rest"
| "padLength [a, b] = 1"
| "padLength [a] = 2"
| "padLength [] = 0"

definition urlSafe :: "jsstring \<Rightarrow> jsstring" where
  "urlSafe s = replaceAll 0x2F 0x5F (replaceAll 0x2B 0x2D s)"

subsection \<open>Reference codecs for the two wire formats\<close>

text \<open>
  \<open>CompressionStream("deflate")\<close> writes, and \<open>DecompressionStream("deflate")\<close> reads, the
  zlib format of RFC 1950: a two-byte header, a DEFLATE stream and the Adler-32 checksum
  of the data. fflate's \<open>deflateSync\<close> writes, and \<open>inflateSync\<close> reads, a bare DEFLATE
  stream (RFC 1951) with no header and no checksum. The codecs below implement the two
  formats for data that fits one stored block (fewer than 65536 bytes): \<open>zlibStored\<close>
  and \<open>storedBlock\<close> write a stream of either format, \<open>zlibInflateStored\<close> and
  \<open>rawInflateStored\<close> read one and reject what is not a final stored block of their
  format. \<open>referencePlatform\<close> is a platform with these codecs as its backends; it gives
  the theorems below concrete platforms to be evaluated on.
\<close>

fun adler32 :: "nat \<Rightarrow> nat \<Rightarrow> byte list \<Rightarrow> nat" where
  "adler32 a b [] = b * 65536 + a"
| "adler32 a b (x # xs) = adler32 ((a + unat x) mod 65521) ((b + (a + unat x) mod 65521) mod 65521) xs"

definition storedBlock :: "byte list \<Rightarrow> byte list" where
  "storedBlock bytes =
     [0x01, of_nat (length bytes mod 256), of_nat (length bytes div 256),
      of_nat (255 - length bytes mod 256), of_nat (255 - length bytes div 256)] @ bytes"

definition zlibStored :: "byte list \<Rightarrow> byte list" where
  "zlibStored bytes =
     [0x78, 0x01] @ storedBlock bytes @
     [of_nat (adler32 1 0 bytes div 16777216), of_nat (adler32 1 0 bytes div 65536 mod 256),
      of_nat (adler32 1 0 bytes div 256 mod 256), of_nat (adler32 1 0 bytes mod 256)]"

definition readStoredBlock :: "byte list \<Rightarrow> (byte list \<times> byte list) option" where
  "readStoredBlock bytes =
     (if length bytes < 5 then None
      else if unat (bytes ! 0) mod 8 \<noteq> 1 then None
      else
        (let len = unat (bytes ! 1) + 256 * unat (bytes ! 2);
             nlen = unat (bytes ! 3) + 256 * unat (bytes ! 4);
             rest = drop 5 bytes
         in if len + nlen \<noteq> 65535 \<or> length rest < len then None
            else Some (take len rest, drop len rest)))"

definition rawInflateStored :: "byte list \<Rightarrow> byte list option" where
  "rawInflateStored bytes = map_option fst (readStoredBlock bytes)"

definition bigEndian :: "byte list \<Rightarrow> nat" where
  "bigEndian bytes = foldl (\<lambda>n b. n * 256 + unat b) 0 bytes"

definition zlibInflateStored :: "byte list \<Rightarrow> byte list option" where
  "zlibInflateStored bytes =
     (if length bytes < 2 then None
      else if unat (bytes ! 0) mod 16 \<noteq> 8 \<or> 7 < unat (bytes ! 0) div 16
              \<or> (unat (bytes ! 0) * 256 + unat (bytes ! 1)) mod 31 \<noteq> 0
              \<or> unat (bytes ! 1) div 32 mod 2 \<noteq> 0
        then None
      else
        (case readStoredBlock (drop 2 bytes) of
           None \<Rightarrow> None
         | Some (out, trailer) \<Rightarrow>
             (if length trailer = 4 \<and> bigEndian trailer = adler32 1 0 out then Some out
              else None)))"

definition referencePlatform :: "bool \<Rightarrow> Platform" where
  "referencePlatform streams =
     \<lparr>supportsCompressionStream = streams,
      compressionStream = zlibStored, decompressionStream = zlibInflateStored,
      deflateSync = storedBlock, inflateSync = rawInflateStored\<rparr>"

section \<open>URL and URLSearchParams\<close>

text \<open>
  Of a URL record only the query and the fragment matter here; scheme, authority and path
  are kept as one string. \<open>None\<close> is a null query or fragment. A \<open>URLSearchParams\<close>
  object is its list of name-value pairs. Parsing and serialising are those of
  \<open>application/x-www-form-urlencoded\<close> in the URL standard; the setter of \<open>hash\<close> removes
  one leading \<open>#\<close> and all tabs and newlines and percent-encodes with the fragment
  percent-encode set.
\<close>

record Url =
  url_prefix :: jsstring
  url_query :: "jsstring option"
  url_fragment :: "jsstring option"

definition toUSVString :: "jsstring \<Rightarrow> jsstring" where
  "toUSVString s = fromScalarValues (toScalarValues s)"

definition hexDigit :: "nat \<Rightarrow> byte" where
  "hexDigit n = (if n < 10 then of_nat (0x30 + n) else of_nat (0x37 + n))"

definition isHexDigit :: "byte \<Rightarrow> bool" where
  "isHexDigit b \<longleftrightarrow>
     (0x30 \<le> unat b \<and> unat b \<le> 0x39) \<or> (0x41 \<le> unat b \<and> unat b \<le> 0x46)
     \<or> (0x61 \<le> unat b \<and> unat b \<le> 0x66)"

definition hexValue :: "byte \<Rightarrow> nat" where
  "hexValue b =
     (if unat b \<le> 0x39 then unat b - 0x30
      else if unat b \<le> 0x46 then unat b - 0x37
      else unat b - 0x57)"

definition isUrlencodedPlain :: "byte \<Rightarrow> bool" where
  "isUrlencodedPlain b \<longleftrightarrow>
     (0x30 \<le> unat b \<and> unat b \<le> 0x39) \<or> (0x41 \<le> unat b \<and> unat b \<le> 0x5A)
     \<or> (0x61 \<le> unat b \<and> unat b \<le> 0x7A)
     \<or> b = 0x2A \<or> b = 0x2D \<or> b = 0x2E \<or> b = 0x5F"

definition urlencodedByte :: "byte \<Rightarrow> byte list" where
  "urlencodedByte b =
     (if b = 0x20 then [0x2B]
      else if isUrlencodedPlain b then [b]
      else [0x25, hexDigit (unat b div 16), hexDigit (unat b mod 16)])"

definition urlencodedComponent :: "jsstring \<Rightarrow> byte list" where
  "urlencodedComponent s = concat (map urlencodedByte (textEncoderEncode s))"

fun intercalate :: "'a list \<Rightarrow> 'a list list \<Rightarrow> 'a list" where
  "intercalate sep [] = []"
| "intercalate sep [x] = x"
| "intercalate sep (x # y # rest) = x @ sep @ intercalate sep (y # rest)"

definition urlencodedSerialize :: "(jsstring \<times> jsstring) list \<Rightarrow> jsstring" where
  "urlencodedSerialize tuples =
     map ucast
       (intercalate [0x26]
          (map (\<lambda>(name, val). urlencodedComponent name @ [0x3D] @ urlencodedComponent val)
             tuples))"

fun splitOn :: "'a \<Rightarrow> 'a list \<Rightarrow> 'a list list" where
  "splitOn d [] = [[]]"
| "splitOn d (x # xs) =
     (if x = d then [] # splitOn d xs
      else (case splitOn d xs of p # ps \<Rightarrow> (x # p) # ps | [] \<Rightarrow> [[x]]))"

fun percentDecode :: "byte list \<Rightarrow> byte list" where
  "percentDecode (b # h # l # rest) =
     (if b = 0x25 \<and> isHexDigit h \<and> isHexDigit l
      then of_nat (hexValue h * 16 + hexValue l) # percentDecode rest
      else b # percentDecode (h # l # rest))"
| "percentDecode [b, h] = [b, h]"
| "percentDecode [b] = [b]"
| "percentDecode [] = []"

definition urlencodedDecodeComponent :: "byte list \<Rightarrow> jsstring" where
  "urlencodedDecodeComponent bytes =
     fromScalarValues
       (utf8Decode 0 0 0x80 0xBF
          (percentDecode (map (\<lambda>b. if b = 0x2B then 0x20 else b) bytes)))"

definition urlencodedParse :: "jsstring \<Rightarrow> (jsstring \<times> jsstring) list" where
  "urlencodedParse input =
     map (\<lambda>bytes.
            (urlencodedDecodeComponent (takeWhile (\<lambda>b. b \<noteq> 0x3D) bytes),
             urlencodedDecodeComponent (drop 1 (dropWhile (\<lambda>b. b \<noteq> 0x3D) bytes))))
       (filter (\<lambda>bytes. bytes \<noteq> []) (splitOn 0x26 (textEncoderEncode input)))"

definition newURLSearchParams :: "jsstring \<Rightarrow> (jsstring \<times> jsstring) list" where
  "newURLSearchParams init =
     urlencodedParse (if init \<noteq> [] \<and> hd init = 0x3F then tl init else init)"

fun paramsGet :: "jsstring \<Rightarrow> (jsstring \<times> jsstring) list \<Rightarrow> jsstring option" where
  "paramsGet name [] = None"
| "paramsGet name ((n, v) # rest) = (if n = name then Some v else paramsGet name rest)"

definition paramsDelete :: "jsstring \<Rightarrow> (jsstring \<times> jsstring) list \<Rightarrow> (jsstring \<times> jsstring) list" where
  "paramsDelete name tuples = filter (\<lambda>p. fst p \<noteq> name) tuples"

fun paramsReplace ::
  "jsstring \<Rightarrow> jsstring \<Rightarrow> (jsstring \<times> jsstring) list \<Rightarrow> (jsstring \<times> jsstring) list" where
  "paramsReplace name val [] = []"
| "paramsReplace name val ((n, v) # rest) =
     (if n = name then (n, val) # paramsDelete name rest
      else (n, v) # paramsReplace name val rest)"

definition paramsSet ::
  "jsstring \<Rightarrow> jsstring \<Rightarrow> (jsstring \<times> jsstring) list \<Rightarrow> (jsstring \<times> jsstring) list" where
  "paramsSet name val tuples =
     (if list_ex (\<lambda>p. fst p = toUSVString name) tuples
      then paramsReplace (toUSVString name) (toUSVString val) tuples
      else tuples @ [(toUSVString name, toUSVString val)])"

definition getHash :: "Url \<Rightarrow> jsstring" where
  "getHash url =
     (case url_fragment url of
        None \<Rightarrow> []
      | Some fragment \<Rightarrow> if fragment = [] then [] else 0x23 # fragment)"

definition inFragmentPercentEncodeSet :: "nat \<Rightarrow> bool" where
  "inFragmentPercentEncodeSet cp \<longleftrightarrow>
     cp \<le> 0x1F \<or> 0x7E < cp \<or> cp = 0x20 \<or> cp = 0x22 \<or> cp = 0x3C \<or> cp = 0x3E \<or> cp = 0x60"

definition percentEncodeByte :: "byte \<Rightarrow> jsstring" where
  "percentEncodeByte b = map ucast [0x25, hexDigit (unat b div 16), hexDigit (unat b mod 16)]"

definition fragmentEncode :: "jsstring \<Rightarrow> jsstring" where
  "fragmentEncode input =
     concat
       (map (\<lambda>cp. if inFragmentPercentEncodeSet cp
                   then concat (map percentEncodeByte (utf8Encode1 cp))
                   else utf16Encode1 cp)
          (toScalarValues input))"

definition setHash :: "jsstring \<Rightarrow> Url \<Rightarrow> Url" where
  "setHash val url =
     (if val = [] then url\<lparr>url_fragment := None\<rparr>
      else
        (let input = (if hd val = 0x23 then tl val else val);
             cleaned = filter (\<lambda>c. c \<noteq> 0x09 \<and> c \<noteq> 0x0A \<and> c \<noteq> 0x0D) input
         in url\<lparr>url_fragment := Some (fragmentEncode cleaned)\<rparr>))"

definition searchParams :: "Url \<Rightarrow> (jsstring \<times> jsstring) list" where
  "searchParams url = urlencodedParse (case url_query url of None \<Rightarrow> [] | Some q \<Rightarrow> q)"

definition searchParamsDelete :: "jsstring \<Rightarrow> Url \<Rightarrow> Url" where
  "searchParamsDelete name url =
     (let serializedQuery = urlencodedSerialize (paramsDelete (toUSVString name) (searchParams url))
      in url\<lparr>url_query := (if serializedQuery = [] then None else Some serializedQuery)\<rparr>)"

text \<open>
  What \<open>readDiagramTokenFromUrl\<close> returns for a URL with the given record, and the
  record of the URL that \<open>writeDiagramTokenToUrl\<close> builds from a URL with the given
  record.
\<close>

definition tokenInUrl :: "Url \<Rightarrow> jsstring option" where
  "tokenInUrl url =
     (let hashParams =
            newURLSearchParams
              (if startsWith (getHash url) (js ''#'') then slice (getHash url) 1 else getHash url)
      in case paramsGet SHARE_PARAM hashParams of
           Some token \<Rightarrow> Some token
         | None \<Rightarrow> paramsGet SHARE_PARAM (searchParams url))"

definition urlWithToken :: "Url \<Rightarrow> jsstring \<Rightarrow> Url" where
  "urlWithToken url token =
     (let nextUrl = url;
          hashParams =
            newURLSearchParams
              (if startsWith (getHash nextUrl) (js ''#'') then slice (getHash nextUrl) 1
               else getHash nextUrl);
          hashParams' = paramsSet SHARE_PARAM token hashParams;
          nextUrl' = setHash (urlencodedSerialize hashParams') nextUrl
      in searchParamsDelete SHARE_PARAM nextUrl')"

text \<open>
  URL objects live in a heap, so that a claim about which object a function changes can be
  stated: a reference is an index into the list of objects, and \<open>new URL(...)\<close> appends
  an object. \<open>new URL(url.toString())\<close> copies the record: parsing the serialisation of
  a URL record gives the record back.
\<close>

type_synonym UrlHeap = "Url list"

definition readDiagramTokenFromUrl :: "UrlHeap \<Rightarrow> nat \<Rightarrow> jsstring option" where
  "readDiagramTokenFromUrl heap url =
     (let hashParams =
            newURLSearchParams
              (if startsWith (getHash (heap ! url)) (js ''#'') then slice (getHash (heap ! url)) 1
               else getHash (heap ! url))
      in case paramsGet SHARE_PARAM hashParams of
           Some token \<Rightarrow> Some token
         | None \<Rightarrow> paramsGet SHARE_PARAM (searchParams (heap ! url)))"

definition writeDiagramTokenToUrl :: "UrlHeap \<Rightarrow> nat \<Rightarrow> jsstring \<Rightarrow> nat \<times> UrlHeap" where
  "writeDiagramTokenToUrl heap url token =
     (let nextUrl = length heap;
          heap1 = heap @ [heap ! url];
          hashParams =
            newURLSearchParams
              (if startsWith (getHash (heap1 ! nextUrl)) (js ''#'')
               then slice (getHash (heap1 ! nextUrl)) 1
               else getHash (heap1 ! nextUrl));
          hashParams' = paramsSet SHARE_PARAM token hashParams;
          heap2 = heap1[nextUrl := setHash (urlencodedSerialize hashParams') (heap1 ! nextUrl)];
          heap3 = heap2[nextUrl := searchParamsDelete SHARE_PARAM (heap2 ! nextUrl)]
      in (nextUrl, heap3))"

text \<open>
  Auxiliary notions for the proofs: the bytes a serialised parameter list consists of,
  the bytes of one pair and of a whole list, a pair after its strings have been turned
  into scalar value strings, strings of ASCII characters, and the share tokens
  (\<open>v1.d.\<close> followed by base64url characters).
\<close>

definition isQueryByte :: "byte \<Rightarrow> bool" where
  "isQueryByte b \<longleftrightarrow> isUrlencodedPlain b \<or> b = 0x2B \<or> b = 0x25 \<or> b = 0x3D \<or> b = 0x26"

definition pairBytes :: "jsstring \<times> jsstring \<Rightarrow> byte list" where
  "pairBytes p = urlencodedComponent (fst p) @ [0x3D] @ urlencodedComponent (snd p)"

definition queryBytes :: "(jsstring \<times> jsstring) list \<Rightarrow> byte list" where
  "queryBytes tuples = intercalate [0x26] (map pairBytes tuples)"

definition usvPair :: "jsstring \<times> jsstring \<Rightarrow> jsstring \<times> jsstring" where
  "usvPair p = (toUSVString (fst p), toUSVString (snd p))"

definition isAsciiString :: "jsstring \<Rightarrow> bool" where
  "isAsciiString s \<longleftrightarrow> list_all (\<lambda>c. unat c < 0x80) s"

definition isBase64UrlChar :: "16 word \<Rightarrow> bool" where
  "isBase64UrlChar c \<longleftrightarrow>
     (0x30 \<le> unat c \<and> unat c \<le> 0x39) \<or> (0x41 \<le> unat c \<and> unat c \<le> 0x5A)
     \<or> (0x61 \<le> unat c \<and> unat c \<le> 0x7A) \<or> c = 0x2D \<or> c = 0x5F"

definition isShareToken :: "jsstring \<Rightarrow> bool" where
  "isShareToken token \<longleftrightarrow>
     startsWith token SHARE_PREFIX \<and>
     list_all isBase64UrlChar (slice token (length SHARE_PREFIX))"

section \<open>Properties of the viewport\<close>

subsection \<open>Rounding\<close>

lemmas round64_eval = round64_def roundTiesToEven_def halvings.simps doublings.simps Let_def

lemma roundTiesToEven_error: "\<bar>of_int (roundTiesToEven m) - m\<bar> \<le> 1 / 2"
  unfolding roundTiesToEven_def Let_def by (auto simp: abs_if) linarith+

lemma halvings_lower: "1 \<le> x \<Longrightarrow> k \<le> halvings k x \<and> 2 ^ (halvings k x - k) \<le> x"
proof (induction k x rule: halvings.induct)
  case (1 k x)
  show ?case
  proof (cases "x < 2 \<or> 1023 \<le> k")
    case True
    then show ?thesis using 1(2) by (simp add: halvings.simps)
  next
    case False
    then have h: "halvings k x = halvings (k + 1) (x / 2)" by (simp add: halvings.simps)
    from False 1(2) have "1 \<le> x / 2" by simp
    with 1(1) False have ih: "k + 1 \<le> halvings (k + 1) (x / 2)"
      "2 ^ (halvings (k + 1) (x / 2) - (k + 1)) \<le> x / 2" by simp_all
    have "halvings (k + 1) (x / 2) - k = Suc (halvings (k + 1) (x / 2) - (k + 1))"
      using ih(1) by simp
    then show ?thesis using ih h by simp
  qed
qed

lemma doublings_spec:
  "0 < x \<Longrightarrow> x < 1 \<Longrightarrow> k \<le> 1022 \<Longrightarrow>
     k \<le> doublings k x \<and> doublings k x \<le> 1022 \<and>
     (1 \<le> x * 2 ^ (doublings k x - k) \<or> doublings k x = 1022)"
proof (induction k x rule: doublings.induct)
  case (1 k x)
  show ?case
  proof (cases "1 \<le> x \<or> 1022 \<le> k")
    case True
    then show ?thesis using 1(2-) by (simp add: doublings.simps)
  next
    case False
    then have h: "doublings k x = doublings (k + 1) (x * 2)" by (simp add: doublings.simps)
    show ?thesis
    proof (cases "x * 2 < 1")
      case True
      with 1(1) False 1(2-) have ih: "k + 1 \<le> doublings (k + 1) (x * 2)"
        "doublings (k + 1) (x * 2) \<le> 1022"
        "1 \<le> x * 2 * 2 ^ (doublings (k + 1) (x * 2) - (k + 1)) \<or> doublings (k + 1) (x * 2) = 1022"
        by simp_all
      have "doublings (k + 1) (x * 2) - k = Suc (doublings (k + 1) (x * 2) - (k + 1))"
        using ih(1) by simp
      then show ?thesis using ih h by (simp add: mult.assoc)
    next
      case f: False
      then have "doublings (k + 1) (x * 2) = k + 1" by (simp add: doublings.simps)
      then show ?thesis using h f False by simp
    qed
  qed
qed

lemma scaled_rounding_error:
  assumes "0 < s" and "r = of_int (roundTiesToEven m) * s" and "x = m * s"
  shows "\<bar>r - x\<bar> \<le> s / 2"
proof -
  have "r - x = (of_int (roundTiesToEven m) - m) * s"
    unfolding assms(2,3) by (simp only: left_diff_distrib)
  then have "\<bar>r - x\<bar> = \<bar>of_int (roundTiesToEven m) - m\<bar> * s"
    using assms(1) by (simp add: abs_mult)
  also have "\<dots> \<le> 1 / 2 * s"
    using assms(1) by (intro mult_right_mono [OF roundTiesToEven_error]) simp
  finally show ?thesis by simp
qed

text \<open>
  The error of one rounding: half a unit in the last place, which is at most
  \<open>2^-53\<close> of the magnitude of a normal result and \<open>2^-1075\<close> for a subnormal one.
\<close>

lemma round64_error: "\<bar>round64 x - x\<bar> \<le> \<bar>x\<bar> / 2 ^ 53 + 1 / 2 ^ 1075"
proof -
  consider "x = 0" | "1 \<le> \<bar>x\<bar>" | "x \<noteq> 0 \<and> \<bar>x\<bar> < 1" by linarith
  then show ?thesis
  proof cases
    case 1
    then show ?thesis by (simp add: round64_def)
  next
    case 2
    define k where "k = halvings 0 \<bar>x\<bar>"
    define s :: real where "s = 2 ^ k / 2 ^ 52"
    define m where "m = x / 2 ^ k * 2 ^ 52"
    have s: "0 < s" by (simp add: s_def)
    have r: "round64 x = of_int (roundTiesToEven m) * s"
      using 2 by (auto simp: round64_def Let_def k_def m_def s_def)
    have x: "x = m * s" by (simp add: m_def s_def)
    have low: "2 ^ k \<le> \<bar>x\<bar>" using halvings_lower [of "\<bar>x\<bar>" 0] 2 by (simp add: k_def)
    have "\<bar>round64 x - x\<bar> \<le> s / 2" using s r x by (rule scaled_rounding_error)
    also have "\<dots> = 2 ^ k / 2 ^ 53" by (simp add: s_def)
    also have "\<dots> \<le> \<bar>x\<bar> / 2 ^ 53" using low by (simp add: divide_right_mono)
    finally show ?thesis by simp
  next
    case 3
    define k where "k = doublings 0 \<bar>x\<bar>"
    define s :: real where "s = 1 / 2 ^ k / 2 ^ 52"
    define m where "m = x * 2 ^ k * 2 ^ 52"
    have s: "0 < s" by (simp add: s_def)
    have r: "round64 x = of_int (roundTiesToEven m) * s"
      using 3 by (auto simp: round64_def Let_def k_def m_def s_def)
    have x: "x = m * s" by (simp add: m_def s_def)
    have spec: "k \<le> 1022" "1 \<le> \<bar>x\<bar> * 2 ^ k \<or> k = 1022"
      using doublings_spec [of "\<bar>x\<bar>" 0] 3 by (simp_all add: k_def)
    have "\<bar>round64 x - x\<bar> \<le> s / 2" using s r x by (rule scaled_rounding_error)
    also have "\<dots> = 1 / 2 ^ k / 2 ^ 53" by (simp add: s_def)
    finally have err: "\<bar>round64 x - x\<bar> \<le> 1 / 2 ^ k / 2 ^ 53" .
    from spec(2) show ?thesis
    proof
      assume "1 \<le> \<bar>x\<bar> * 2 ^ k"
      then have "1 / 2 ^ k \<le> \<bar>x\<bar>" by (simp add: field_simps)
      then have "1 / 2 ^ k / 2 ^ 53 \<le> \<bar>x\<bar> / 2 ^ 53" by (simp add: divide_right_mono)
      with err show ?thesis by simp
    next
      assume "k = 1022"
      then have "1 / 2 ^ k / 2 ^ 53 = (1 / 2 ^ 1075 :: real)" by simp
      with err have "\<bar>round64 x - x\<bar> \<le> 1 / 2 ^ 1075" by simp
      moreover have "0 \<le> \<bar>x\<bar> / 2 ^ 53" by simp
      ultimately show ?thesis by linarith
    qed
  qed
qed

lemma round64_magnitude: "\<bar>round64 x\<bar> \<le> 2 * \<bar>x\<bar> + 1"
proof -
  have "\<bar>x\<bar> / 2 ^ 53 \<le> \<bar>x\<bar>" by (simp add: field_simps)
  moreover have "(1 :: real) / 2 ^ 1075 \<le> 1" by simp
  ultimately show ?thesis using round64_error [of x] by linarith
qed

lemma quotient_magnitude:
  assumes "1 / 5 \<le> (s :: real)"
  shows "\<bar>d / s\<bar> \<le> 5 * \<bar>d\<bar>"
proof -
  have "\<bar>d\<bar> / s \<le> \<bar>d\<bar> / (1 / 5)" using assms by (intro divide_left_mono) simp_all
  then show ?thesis using assms by simp
qed

lemma product_magnitude:
  assumes "0 \<le> (s :: real)" and "s \<le> 16"
  shows "\<bar>c * s\<bar> \<le> 16 * \<bar>c\<bar>"
proof -
  have "\<bar>c\<bar> * s \<le> \<bar>c\<bar> * 16" using assms by (intro mult_left_mono) simp_all
  then show ?thesis using assms by (simp add: abs_mult)
qed

subsection \<open>The scale\<close>

lemma MIN_SCALE_value: "MIN_SCALE = 3602879701896397 / 2 ^ 54"
  by (simp add: MIN_SCALE_def round64_eval)

lemma MIN_SCALE_above: "2 / 10 \<le> MIN_SCALE"
  by (simp add: MIN_SCALE_value)

lemma clamp_scale_bounds:
  "MIN_SCALE \<le> clamp v MIN_SCALE MAX_SCALE \<and> clamp v MIN_SCALE MAX_SCALE \<le> MAX_SCALE"
  by (simp add: clamp_def MIN_SCALE_value MAX_SCALE_def)

lemma viewStep_scaleInRange:
  assumes inv: "scaleInRange s"
  shows "scaleInRange (viewStep op s)"
proof (cases op)
  case (ApplyZoomAroundPoint n ax ay)
  with inv show ?thesis
    using clamp_scale_bounds [of n]
    by (simp add: scaleInRange_def applyZoomAroundPoint_def zoomedAround_def Let_def)
next
  case (ZoomToScale n)
  with inv show ?thesis
    using clamp_scale_bounds [of n]
    by (simp add: scaleInRange_def zoomToScale_def applyZoomAroundPoint_def zoomedAround_def
        Let_def split: option.split)
next
  case (ZoomByFactor f)
  with inv show ?thesis
    using clamp_scale_bounds [of "mul64 (tr_scale (transformRef s)) f"]
    by (simp add: scaleInRange_def zoomByFactor_def zoomToScale_def applyZoomAroundPoint_def
        zoomedAround_def Let_def split: option.split)
next
  case FitToView
  with inv show ?thesis
    using clamp_scale_bounds
    by (simp add: scaleInRange_def fitToView_def Let_def split: option.split)
next
  case (WheelZoom e)
  with inv show ?thesis
    using clamp_scale_bounds
    by (simp add: scaleInRange_def handleWheelZoom_def applyZoomAroundPoint_def
        zoomedAround_def Let_def split: option.split)
next
  case (PointerDown e)
  with inv show ?thesis by (simp add: scaleInRange_def handlePointerDown_def)
next
  case (PointerMove e)
  with inv show ?thesis
    by (simp add: scaleInRange_def handlePointerMove_def split: option.split)
next
  case (PointerUp e)
  with inv show ?thesis
    by (simp add: scaleInRange_def handlePointerUp_def split: option.split)
next
  case SyncTransformRef
  with inv show ?thesis by (simp add: scaleInRange_def syncTransformRef_def)
next
  case (SetSvgSize z)
  with inv show ?thesis by (simp add: scaleInRange_def)
next
  case (SetViewport v)
  with inv show ?thesis by (simp add: scaleInRange_def)
qed

lemma viewRun_scaleInRange:
  "scaleInRange s \<Longrightarrow> scaleInRange (viewRun ops s)"
  by (induction ops arbitrary: s) (simp_all add: viewStep_scaleInRange)


text \<open>
  C4. Starting from the initial transform (scale 1), after any sequence of viewport
  operations, wheel and pointer events, the scale of the transform lies in
  \<open>[0.2, 16]\<close>; and \<open>applyZoomAroundPoint 1000 x y\<close> leaves the scale at exactly 16,
  whatever the state before. The lower bound \<open>MIN_SCALE\<close> is the binary64 value of the
  literal \<open>0.2\<close>, which is not below \<open>0.2\<close>.
\<close>

theorem scale_always_clamped:
  "scaleInRange (viewRun ops initialPreview) \<and>
   tr_scale (transform (applyZoomAroundPoint 1000 ax ay s)) = 16"
proof
  have "scaleInRange initialPreview"
    by (simp add: scaleInRange_def initialPreview_def MIN_SCALE_value MAX_SCALE_def)
  then show "scaleInRange (viewRun ops initialPreview)"
    by (rule viewRun_scaleInRange)
  show "tr_scale (transform (applyZoomAroundPoint 1000 ax ay s)) = 16"
    by (simp add: applyZoomAroundPoint_def zoomedAround_def clamp_def MIN_SCALE_value
        MAX_SCALE_def)
qed

subsection \<open>The anchor\<close>

text \<open>
  How the four roundings between the content coordinate \<open>c\<close> that the updater computes
  and the coordinate \<open>c'\<close> computed from the new transform add up: \<open>p\<close> is the rounded
  product \<open>c * s'\<close>, \<open>X\<close> the new translation, \<open>e\<close> the rounded difference \<open>ax - X\<close>.
\<close>

lemma anchor_error_propagation:
  fixes c s' ax p X e c' :: real
  assumes s': "1 / 5 \<le> s'" "s' \<le> 16"
    and p: "\<bar>p - c * s'\<bar> \<le> \<bar>c * s'\<bar> / 2 ^ 53 + 1 / 2 ^ 1075"
    and X: "\<bar>X - (ax - p)\<bar> \<le> \<bar>ax - p\<bar> / 2 ^ 53 + 1 / 2 ^ 1075"
    and e: "\<bar>e - (ax - X)\<bar> \<le> \<bar>ax - X\<bar> / 2 ^ 53 + 1 / 2 ^ 1075"
    and c': "\<bar>c' - e / s'\<bar> \<le> \<bar>e / s'\<bar> / 2 ^ 53 + 1 / 2 ^ 1075"
  shows "\<bar>c' - c\<bar> \<le> (\<bar>c\<bar> + \<bar>ax\<bar> / s') / 2 ^ 50 + 1 / 2 ^ 1070"
proof -
  define h :: real where "h = 1 / 2 ^ 1075"
  define A where "A = \<bar>c * s'\<bar>"
  define B where "B = \<bar>ax\<bar>"
  have pos: "0 < s'" using s'(1) by simp
  have k: "(2::real) ^ 53 = 9007199254740992" by simp
  have h: "0 < h" by (simp add: h_def)
  have AB: "0 \<le> A" "0 \<le> B" by (simp_all add: A_def B_def)
  have p': "\<bar>p - c * s'\<bar> \<le> A / 2 ^ 53 + h" using p by (simp add: h_def A_def)
  have X': "\<bar>X - (ax - p)\<bar> \<le> \<bar>ax - p\<bar> / 2 ^ 53 + h" using X by (simp add: h_def)
  have e': "\<bar>e - (ax - X)\<bar> \<le> \<bar>ax - X\<bar> / 2 ^ 53 + h" using e by (simp add: h_def)
  have p1: "\<bar>p\<bar> \<le> A + A / 2 ^ 53 + h" using p' unfolding A_def k by argo
  have D: "\<bar>ax - p\<bar> \<le> B + 2 * A + h" using p1 AB unfolding B_def k by argo
  have X1: "\<bar>(ax - X) - p\<bar> \<le> (B + 2 * A + h) / 2 ^ 53 + h" using X' D unfolding k by argo
  have X2: "\<bar>ax - X\<bar> \<le> B + 3 * A + 3 * h" using X1 p1 AB h unfolding k by argo
  have E: "\<bar>e - c * s'\<bar> \<le> (2 * B + 6 * A) / 2 ^ 53 + 4 * h"
    using e' X2 X1 p' AB h unfolding k by argo
  have e1: "\<bar>e\<bar> \<le> A + \<bar>e - c * s'\<bar>" unfolding A_def by linarith
  define L where "L = \<bar>e\<bar> / 2 ^ 53 + \<bar>e - c * s'\<bar>"
  have L: "L \<le> (8 * A + 8 * B) / 2 ^ 53 + 5 * h"
    unfolding L_def k using E e1 AB h unfolding k by argo
  have c1: "\<bar>c' - e / s'\<bar> \<le> \<bar>e\<bar> / 2 ^ 53 / s' + h"
    using c' pos by (simp add: h_def)
  have "e / s' - c = (e - c * s') / s'" using pos by (simp add: field_simps)
  then have c2: "\<bar>e / s' - c\<bar> = \<bar>e - c * s'\<bar> / s'" using pos by (simp add: abs_divide)
  have "\<bar>c' - c\<bar> \<le> \<bar>c' - e / s'\<bar> + \<bar>e / s' - c\<bar>" by linarith
  also have "\<dots> \<le> \<bar>e\<bar> / 2 ^ 53 / s' + h + \<bar>e - c * s'\<bar> / s'" using c1 c2 unfolding k by argo
  also have "\<dots> = L / s' + h" by (simp add: L_def add_divide_distrib)
  also have "\<dots> \<le> ((8 * A + 8 * B) / 2 ^ 53 + 5 * h) / s' + h"
    using L pos by (simp add: divide_right_mono)
  also have "\<dots> = (A / s' + B / s') / 2 ^ 50 + 5 * (h / s') + h"
    by (simp add: add_divide_distrib)
  also have "\<dots> \<le> (\<bar>c\<bar> + \<bar>ax\<bar> / s') / 2 ^ 50 + 25 * h + h"
  proof -
    have "A / s' = \<bar>c\<bar>" using pos by (simp add: A_def abs_mult)
    moreover have "h / s' \<le> 5 * h"
    proof -
      have "h / s' \<le> h / (1 / 5)" using s'(1) h by (intro divide_left_mono) simp_all
      then show ?thesis by simp
    qed
    ultimately show ?thesis by (simp add: B_def)
  qed
  also have "\<dots> \<le> (\<bar>c\<bar> + \<bar>ax\<bar> / s') / 2 ^ 50 + 1 / 2 ^ 1070"
    by (simp add: h_def)
  finally show ?thesis .
qed

lemma contentUnder_zoomedAround:
  assumes "MIN_SCALE \<le> sc" and "sc \<le> MAX_SCALE"
  shows "\<bar>contentUnder a (sub64 a (mul64 c sc)) sc - c\<bar>
           \<le> (\<bar>c\<bar> + \<bar>a\<bar> / sc) / 2 ^ 50 + 1 / 2 ^ 1070"
proof -
  have lo: "1 / 5 \<le> sc" using assms(1) by (simp add: MIN_SCALE_value)
  have hi: "sc \<le> 16" using assms(2) by (simp add: MAX_SCALE_def)
  show ?thesis
    unfolding contentUnder_def
    using lo hi
  proof (rule anchor_error_propagation)
    show "\<bar>mul64 c sc - c * sc\<bar> \<le> \<bar>c * sc\<bar> / 2 ^ 53 + 1 / 2 ^ 1075"
      unfolding mul64_def by (rule round64_error)
    show "\<bar>sub64 a (mul64 c sc) - (a - mul64 c sc)\<bar>
            \<le> \<bar>a - mul64 c sc\<bar> / 2 ^ 53 + 1 / 2 ^ 1075"
      unfolding sub64_def by (rule round64_error)
    show "\<bar>sub64 a (sub64 a (mul64 c sc)) - (a - sub64 a (mul64 c sc))\<bar>
            \<le> \<bar>a - sub64 a (mul64 c sc)\<bar> / 2 ^ 53 + 1 / 2 ^ 1075"
      unfolding sub64_def by (rule round64_error)
    show "\<bar>div64 (sub64 a (sub64 a (mul64 c sc))) sc - sub64 a (sub64 a (mul64 c sc)) / sc\<bar>
            \<le> \<bar>sub64 a (sub64 a (mul64 c sc)) / sc\<bar> / 2 ^ 53 + 1 / 2 ^ 1075"
      unfolding div64_def by (rule round64_error)
  qed
qed

text \<open>
  With a scale in \<open>[0.2, 16]\<close> and an anchor and a translation of magnitude at most
  \<open>2^1000\<close>, the exact result of each of the six operations between the old transform
  and the content coordinate under the new one has a magnitude of at most \<open>2^1015\<close>, and
  so has the new translation: nothing comes near \<open>2^1024\<close>.
\<close>

lemma zoom_no_overflow:
  assumes s: "1 / 5 \<le> s" and s': "1 / 5 \<le> s'" "s' \<le> 16"
    and a: "\<bar>a\<bar> \<le> 2 ^ 1000" and t: "\<bar>t\<bar> \<le> 2 ^ 1000"
  shows "\<bar>a - t\<bar> \<le> 2 ^ 1015"
    and "\<bar>sub64 a t / s\<bar> \<le> 2 ^ 1015"
    and "\<bar>div64 (sub64 a t) s * s'\<bar> \<le> 2 ^ 1015"
    and "\<bar>a - mul64 (div64 (sub64 a t) s) s'\<bar> \<le> 2 ^ 1015"
    and "\<bar>sub64 a (mul64 (div64 (sub64 a t) s) s')\<bar> \<le> 2 ^ 1015"
    and "\<bar>a - sub64 a (mul64 (div64 (sub64 a t) s) s')\<bar> \<le> 2 ^ 1015"
    and "\<bar>sub64 a (sub64 a (mul64 (div64 (sub64 a t) s) s')) / s'\<bar> \<le> 2 ^ 1015"
proof -
  define K :: real where "K = 2 ^ 1000"
  define d where "d = sub64 a t"
  define c where "c = div64 d s"
  define p where "p = mul64 c s'"
  define X where "X = sub64 a p"
  define e where "e = sub64 a X"
  have K: "1 \<le> K" by (simp add: K_def)
  have top: "(2 :: real) ^ 1015 = 32768 * K" by (simp add: K_def)
  have a': "\<bar>a\<bar> \<le> K" and t': "\<bar>t\<bar> \<le> K" using a t by (simp_all add: K_def)
  have r1: "\<bar>a - t\<bar> \<le> 2 * K" using a' t' by linarith
  have d: "\<bar>d\<bar> \<le> 5 * K"
    using round64_magnitude [of "a - t"] r1 K by (simp add: d_def sub64_def)
  have r2: "\<bar>d / s\<bar> \<le> 25 * K" using quotient_magnitude [OF s, of d] d by linarith
  have c: "\<bar>c\<bar> \<le> 51 * K"
    using round64_magnitude [of "d / s"] r2 K by (simp add: c_def div64_def)
  have r3: "\<bar>c * s'\<bar> \<le> 816 * K" using product_magnitude [OF _ s'(2), of c] s'(1) c by linarith
  have p: "\<bar>p\<bar> \<le> 1633 * K"
    using round64_magnitude [of "c * s'"] r3 K by (simp add: p_def mul64_def)
  have r4: "\<bar>a - p\<bar> \<le> 1634 * K" using a' p by linarith
  have X: "\<bar>X\<bar> \<le> 3269 * K"
    using round64_magnitude [of "a - p"] r4 K by (simp add: X_def sub64_def)
  have r5: "\<bar>a - X\<bar> \<le> 3270 * K" using a' X by linarith
  have e: "\<bar>e\<bar> \<le> 6541 * K"
    using round64_magnitude [of "a - X"] r5 K by (simp add: e_def sub64_def)
  have r6: "\<bar>e / s'\<bar> \<le> 32705 * K" using quotient_magnitude [OF s'(1), of e] e by linarith
  show "\<bar>a - t\<bar> \<le> 2 ^ 1015" unfolding top using r1 K by linarith
  show "\<bar>sub64 a t / s\<bar> \<le> 2 ^ 1015" unfolding top using r2 K by (simp add: d_def)
  show "\<bar>div64 (sub64 a t) s * s'\<bar> \<le> 2 ^ 1015"
    unfolding top using r3 K by (simp add: d_def c_def)
  show "\<bar>a - mul64 (div64 (sub64 a t) s) s'\<bar> \<le> 2 ^ 1015"
    unfolding top using r4 K by (simp add: d_def c_def p_def)
  show "\<bar>sub64 a (mul64 (div64 (sub64 a t) s) s')\<bar> \<le> 2 ^ 1015"
    unfolding top using X K by (simp add: d_def c_def p_def X_def)
  show "\<bar>a - sub64 a (mul64 (div64 (sub64 a t) s) s')\<bar> \<le> 2 ^ 1015"
    unfolding top using r5 K by (simp add: d_def c_def p_def X_def)
  show "\<bar>sub64 a (sub64 a (mul64 (div64 (sub64 a t) s) s')) / s'\<bar> \<le> 2 ^ 1015"
    unfolding top using r6 K by (simp add: d_def c_def p_def X_def e_def)
qed

lemma zoomedAround_translation:
  assumes "MIN_SCALE \<le> tr_scale cur" and "\<bar>a\<bar> \<le> 2 ^ 1000" and "\<bar>t\<bar> \<le> 2 ^ 1000"
  shows "\<bar>sub64 a (mul64 (div64 (sub64 a t) (tr_scale cur)) (clamp target MIN_SCALE MAX_SCALE))\<bar>
           \<le> 2 ^ 1015"
proof -
  have s: "1 / 5 \<le> tr_scale cur" using assms(1) by (simp add: MIN_SCALE_value)
  have s': "1 / 5 \<le> clamp target MIN_SCALE MAX_SCALE" "clamp target MIN_SCALE MAX_SCALE \<le> 16"
    using clamp_scale_bounds [of target] by (simp_all add: MIN_SCALE_value MAX_SCALE_def)
  show ?thesis using s s' assms(2,3) by (rule zoom_no_overflow(5))
qed

text \<open>
  C3, as the claim states it, fails in binary64: for the transform \<open>(0, 0, 3)\<close>, the target
  scale 1 and the anchor \<open>(1, 2)\<close> the new transform is
  \<open>(0.6666666666666667, 1.3333333333333335, 1)\<close>. The content coordinate under the anchor
  computed from it is \<open>0.33333333333333326\<close>, the one computed from the old transform is
  \<open>0.3333333333333333\<close>; and the coordinate of the new transform is not \<open>1/3\<close> in exact
  arithmetic either.
\<close>

theorem anchor_rounding_counterexample:
  "transform (applyZoomAroundPoint 1 1 2
      (initialPreview\<lparr>transform := \<lparr>tr_x = 0, tr_y = 0, tr_scale = 3\<rparr>\<rparr>))
     = \<lparr>tr_x = 6004799503160662 / 2 ^ 53, tr_y = 6004799503160662 / 2 ^ 52, tr_scale = 1\<rparr>
   \<and> contentUnder 1 (6004799503160662 / 2 ^ 53) 1 = 6004799503160660 / 2 ^ 54
   \<and> contentUnder 1 0 3 = 6004799503160661 / 2 ^ 54
   \<and> (1 - 6004799503160662 / 2 ^ 53) / 1 \<noteq> ((1 - 0) / 3 :: real)"
  by (simp add: applyZoomAroundPoint_def zoomedAround_def contentUnder_def clamp_def
      MIN_SCALE_value MAX_SCALE_def initialPreview_def sub64_def mul64_def div64_def round64_eval)

text \<open>
  C3, amended. The content point under the anchor is kept up to rounding. Take a
  transform whose scale lies in \<open>[0.2, 16]\<close> and whose translation has a magnitude of at
  most \<open>2^1000\<close>, any target scale and an anchor pixel \<open>(ax, ay)\<close> of magnitude at most
  \<open>2^1000\<close>. Then the content coordinate under the anchor computed from the transform
  after \<open>applyZoomAroundPoint\<close> differs from the one computed from the transform before
  it by at most \<open>(|c| + |a| / scale') / 2^50 + 2^-1070\<close>, where \<open>c\<close> is the coordinate
  before, \<open>a\<close> the coordinate of the anchor and \<open>scale'\<close> the new scale; and the new
  translation has a magnitude of at most \<open>2^1015\<close>. Both coordinates are computed in
  binary64.
\<close>

theorem anchor_invariance:
  assumes "MIN_SCALE \<le> tr_scale (transform s)" and "tr_scale (transform s) \<le> MAX_SCALE"
    and "\<bar>ax\<bar> \<le> 2 ^ 1000" and "\<bar>ay\<bar> \<le> 2 ^ 1000"
    and "\<bar>tr_x (transform s)\<bar> \<le> 2 ^ 1000" and "\<bar>tr_y (transform s)\<bar> \<le> 2 ^ 1000"
  shows "\<bar>contentUnder ax (tr_x (transform (applyZoomAroundPoint target ax ay s)))
             (tr_scale (transform (applyZoomAroundPoint target ax ay s)))
           - contentUnder ax (tr_x (transform s)) (tr_scale (transform s))\<bar>
         \<le> (\<bar>contentUnder ax (tr_x (transform s)) (tr_scale (transform s))\<bar>
              + \<bar>ax\<bar> / tr_scale (transform (applyZoomAroundPoint target ax ay s))) / 2 ^ 50
             + 1 / 2 ^ 1070
       \<and> \<bar>contentUnder ay (tr_y (transform (applyZoomAroundPoint target ax ay s)))
             (tr_scale (transform (applyZoomAroundPoint target ax ay s)))
           - contentUnder ay (tr_y (transform s)) (tr_scale (transform s))\<bar>
         \<le> (\<bar>contentUnder ay (tr_y (transform s)) (tr_scale (transform s))\<bar>
              + \<bar>ay\<bar> / tr_scale (transform (applyZoomAroundPoint target ax ay s))) / 2 ^ 50
             + 1 / 2 ^ 1070
       \<and> \<bar>tr_x (transform (applyZoomAroundPoint target ax ay s))\<bar> \<le> 2 ^ 1015
       \<and> \<bar>tr_y (transform (applyZoomAroundPoint target ax ay s))\<bar> \<le> 2 ^ 1015"
proof -
  define sc where "sc = clamp target MIN_SCALE MAX_SCALE"
  have b: "MIN_SCALE \<le> sc" "sc \<le> MAX_SCALE"
    using clamp_scale_bounds [of target] by (simp_all add: sc_def)
  have x: "tr_x (transform (applyZoomAroundPoint target ax ay s)) =
             sub64 ax (mul64 (contentUnder ax (tr_x (transform s)) (tr_scale (transform s))) sc)"
    by (simp add: applyZoomAroundPoint_def zoomedAround_def Let_def contentUnder_def sc_def)
  have y: "tr_y (transform (applyZoomAroundPoint target ax ay s)) =
             sub64 ay (mul64 (contentUnder ay (tr_y (transform s)) (tr_scale (transform s))) sc)"
    by (simp add: applyZoomAroundPoint_def zoomedAround_def Let_def contentUnder_def sc_def)
  have z: "tr_scale (transform (applyZoomAroundPoint target ax ay s)) = sc"
    by (simp add: applyZoomAroundPoint_def zoomedAround_def Let_def sc_def)
  have fx: "\<bar>sub64 ax (mul64 (contentUnder ax (tr_x (transform s)) (tr_scale (transform s))) sc)\<bar>
              \<le> 2 ^ 1015"
    unfolding contentUnder_def sc_def using assms(1,3,5) by (rule zoomedAround_translation)
  have fy: "\<bar>sub64 ay (mul64 (contentUnder ay (tr_y (transform s)) (tr_scale (transform s))) sc)\<bar>
              \<le> 2 ^ 1015"
    unfolding contentUnder_def sc_def using assms(1,4,6) by (rule zoomedAround_translation)
  show ?thesis
    unfolding x y z by (intro conjI contentUnder_zoomedAround b fx fy)
qed

theorem anchor_invariance_witness:
  "MIN_SCALE \<le> 3 \<and> 3 \<le> MAX_SCALE
   \<and> \<bar>101 :: real\<bar> \<le> 2 ^ 1000 \<and> \<bar>55 :: real\<bar> \<le> 2 ^ 1000
   \<and> \<bar>10 :: real\<bar> \<le> 2 ^ 1000 \<and> \<bar>20 :: real\<bar> \<le> 2 ^ 1000
   \<and> transform (applyZoomAroundPoint (1 / 2) 101 55
        (initialPreview\<lparr>transform := \<lparr>tr_x = 10, tr_y = 20, tr_scale = 3\<rparr>\<rparr>))
       = \<lparr>tr_x = 6039983875249493 / 2 ^ 46, tr_y = 6919593177470293 / 2 ^ 47, tr_scale = 1 / 2\<rparr>
   \<and> contentUnder 101 10 3 = 8538074293556565 / 2 ^ 48
   \<and> contentUnder 101 (6039983875249493 / 2 ^ 46) (1 / 2) = 1067259286694571 / 2 ^ 45
   \<and> contentUnder 55 20 3 = 6567749456581973 / 2 ^ 49
   \<and> contentUnder 55 (6919593177470293 / 2 ^ 47) (1 / 2) = 820968682072747 / 2 ^ 46
   \<and> \<bar>1067259286694571 / 2 ^ 45 - 8538074293556565 / 2 ^ 48 :: real\<bar>
       \<le> (\<bar>8538074293556565 / 2 ^ 48\<bar> + \<bar>101\<bar> / (1 / 2)) / 2 ^ 50 + 1 / 2 ^ 1070
   \<and> \<bar>820968682072747 / 2 ^ 46 - 6567749456581973 / 2 ^ 49 :: real\<bar>
       \<le> (\<bar>6567749456581973 / 2 ^ 49\<bar> + \<bar>55\<bar> / (1 / 2)) / 2 ^ 50 + 1 / 2 ^ 1070"
proof -
  let ?s = "initialPreview\<lparr>transform := \<lparr>tr_x = 10, tr_y = 20, tr_scale = 3\<rparr>\<rparr>"
  have hyp: "MIN_SCALE \<le> tr_scale (transform ?s)" "tr_scale (transform ?s) \<le> MAX_SCALE"
    "\<bar>101 :: real\<bar> \<le> 2 ^ 1000" "\<bar>55 :: real\<bar> \<le> 2 ^ 1000"
    "\<bar>tr_x (transform ?s)\<bar> \<le> 2 ^ 1000" "\<bar>tr_y (transform ?s)\<bar> \<le> 2 ^ 1000"
    by (simp_all add: MIN_SCALE_value MAX_SCALE_def)
  have t: "transform (applyZoomAroundPoint (1 / 2) 101 55 ?s)
       = \<lparr>tr_x = 6039983875249493 / 2 ^ 46, tr_y = 6919593177470293 / 2 ^ 47, tr_scale = 1 / 2\<rparr>"
    by (simp add: applyZoomAroundPoint_def zoomedAround_def clamp_def MIN_SCALE_value
        MAX_SCALE_def initialPreview_def sub64_def mul64_def div64_def round64_eval)
  have c: "contentUnder 101 10 3 = 8538074293556565 / 2 ^ 48"
    "contentUnder 101 (6039983875249493 / 2 ^ 46) (1 / 2) = 1067259286694571 / 2 ^ 45"
    "contentUnder 55 20 3 = 6567749456581973 / 2 ^ 49"
    "contentUnder 55 (6919593177470293 / 2 ^ 47) (1 / 2) = 820968682072747 / 2 ^ 46"
    by (simp_all add: contentUnder_def sub64_def div64_def round64_eval)
  have sel: "tr_x (transform ?s) = 10" "tr_y (transform ?s) = 20" "tr_scale (transform ?s) = 3"
    by simp_all
  have new: "tr_x (transform (applyZoomAroundPoint (1 / 2) 101 55 ?s)) = 6039983875249493 / 2 ^ 46"
    "tr_y (transform (applyZoomAroundPoint (1 / 2) 101 55 ?s)) = 6919593177470293 / 2 ^ 47"
    "tr_scale (transform (applyZoomAroundPoint (1 / 2) 101 55 ?s)) = 1 / 2"
    unfolding t by simp_all
  note bound = anchor_invariance [OF hyp, of "1 / 2", unfolded new sel c]
  show ?thesis
    using hyp(1,2) [unfolded sel] hyp(3,4) hyp(5,6) [unfolded sel] t c bound by blast
qed

subsection \<open>The drag session\<close>

text \<open>
  C9, as the claim states it, fails: with the session of pointer 1 open, a primary-button
  pointer-down of pointer 2 is not ignored. The session of pointer 1 is gone and the one
  cell holds a session of pointer 2 with the start coordinates of the second event.
\<close>

theorem second_pointer_down_counterexample:
  "dragRef
     (handlePointerDown \<lparr>ev_button = 0, ev_pointerId = 2, ev_clientX = 50, ev_clientY = 60\<rparr>
       (handlePointerDown \<lparr>ev_button = 0, ev_pointerId = 1, ev_clientX = 10, ev_clientY = 20\<rparr>
          initialPreview))
   = Some \<lparr>pointerId = 2, startClientX = 50, startClientY = 60, startX = 0, startY = 0\<rparr>
   \<and> dragRef
     (handlePointerDown \<lparr>ev_button = 0, ev_pointerId = 1, ev_clientX = 10, ev_clientY = 20\<rparr>
        initialPreview)
   = Some \<lparr>pointerId = 1, startClientX = 10, startClientY = 20, startX = 0, startY = 0\<rparr>"
  by (simp add: handlePointerDown_def initialPreview_def)

text \<open>
  C9, amended. The panel has one cell for the drag session, so at most one is open. While
  a session \<open>d\<close> is open: a pointer-down with the primary button replaces it by a session
  of the new pointer (its id and coordinates, and the translation held by
  \<open>transformRef\<close>); a pointer-down with any other button leaves it as it is; a
  pointer-up or pointer-cancel ends it when the pointer id matches and leaves it as it is
  otherwise; a pointer-move never touches it.
\<close>

theorem drag_session_while_open:
  assumes "dragRef s = Some d"
  shows "dragRef (handlePointerDown e s) =
           (if ev_button e = 0
            then Some \<lparr>pointerId = ev_pointerId e, startClientX = ev_clientX e,
                       startClientY = ev_clientY e, startX = tr_x (transformRef s),
                       startY = tr_y (transformRef s)\<rparr>
            else Some d)
       \<and> dragRef (handlePointerUp e s) = (if ev_pointerId e = pointerId d then None else Some d)
       \<and> dragRef (handlePointerMove e s) = Some d"
  using assms
  by (simp add: handlePointerDown_def handlePointerUp_def handlePointerMove_def)

theorem drag_session_while_open_witness:
  "(let down1 = \<lparr>ev_button = 0, ev_pointerId = 1, ev_clientX = 10, ev_clientY = 20\<rparr>;
        d = \<lparr>pointerId = 1, startClientX = 10, startClientY = 20, startX = 0, startY = 0\<rparr>;
        s = handlePointerDown down1 initialPreview
    in dragRef s = Some d
       \<and> dragRef (handlePointerDown (down1\<lparr>ev_button := 2, ev_pointerId := 7\<rparr>) s) = Some d
       \<and> dragRef (handlePointerUp (down1\<lparr>ev_pointerId := 7\<rparr>) s) = Some d
       \<and> dragRef (handlePointerUp down1 s) = None
       \<and> dragRef (handlePointerMove down1 s) = Some d)"
proof -
  let ?down1 = "\<lparr>ev_button = 0, ev_pointerId = 1, ev_clientX = 10, ev_clientY = 20\<rparr>"
  let ?d = "\<lparr>pointerId = 1, startClientX = 10, startClientY = 20, startX = 0, startY = 0\<rparr>"
  let ?s = "handlePointerDown ?down1 initialPreview"
  have open1: "dragRef ?s = Some ?d"
    by (simp add: handlePointerDown_def initialPreview_def)
  show ?thesis
    using open1
      drag_session_while_open [OF open1, of "?down1\<lparr>ev_button := 2, ev_pointerId := 7\<rparr>"]
      drag_session_while_open [OF open1, of "?down1\<lparr>ev_pointerId := 7\<rparr>"]
      drag_session_while_open [OF open1, of ?down1]
    by (simp add: Let_def)
qed

section \<open>Properties of the render scheduler\<close>

lemma renderCalls_settle [simp]: "renderCalls (settle n st r s) = renderCalls s"
  by (simp add: settle_def split: outcome.split)

lemma requestIdRef_settle [simp]: "requestIdRef (settle n st r s) = requestIdRef s"
  by (simp add: settle_def split: outcome.split)

lemma settle_stale: "n \<noteq> requestIdRef s \<Longrightarrow> settle n st r s = s"
  by (simp add: settle_def)

lemma displayed_settle_current:
  "displayed (settle (requestIdRef s) st r s) =
     (case r of
        Rendered markup \<Rightarrow> (if st = Svg then (markup, [], []) else ([], markup, []))
      | Threw e \<Rightarrow> ([], [], errorText e))"
  by (simp add: settle_def displayed_def split: outcome.split)

text \<open>
  C2. Stale-result fencing. Let \<open>n1 < n2\<close> be the stamps of two requests in flight, \<open>n2\<close>
  the current value of the counter. In whichever order the two complete, the state is
  the one that the completion of \<open>n2\<close> alone produces, and the preview shows the result
  of \<open>n2\<close>; and a completion whose stamp is not the current value of the counter
  changes nothing at all.
\<close>

theorem stale_result_fencing:
  assumes "n1 < n2" and "requestIdRef s = n2"
  shows "settle n1 st1 r1 (settle n2 st2 r2 s) = settle n2 st2 r2 s
       \<and> settle n2 st2 r2 (settle n1 st1 r1 s) = settle n2 st2 r2 s
       \<and> displayed (settle n2 st2 r2 s) =
           (case r2 of
              Rendered markup \<Rightarrow> (if st2 = Svg then (markup, [], []) else ([], markup, []))
            | Threw e \<Rightarrow> ([], [], errorText e))
       \<and> (\<forall>n st r s'. n \<noteq> requestIdRef s' \<longrightarrow> settle n st r s' = s')"
proof -
  from assms have stale: "n1 \<noteq> requestIdRef s" by simp
  have "n1 \<noteq> requestIdRef (settle n2 st2 r2 s)"
    using stale by simp
  then have a: "settle n1 st1 r1 (settle n2 st2 r2 s) = settle n2 st2 r2 s"
    by (rule settle_stale)
  have b: "settle n2 st2 r2 (settle n1 st1 r1 s) = settle n2 st2 r2 s"
    using stale by (simp add: settle_stale)
  have c: "displayed (settle n2 st2 r2 s) =
           (case r2 of
              Rendered markup \<Rightarrow> (if st2 = Svg then (markup, [], []) else ([], markup, []))
            | Threw e \<Rightarrow> ([], [], errorText e))"
    using displayed_settle_current [of s st2 r2] assms(2) by simp
  from a b c show ?thesis
    by (simp add: settle_stale)
qed

theorem stale_result_fencing_witness:
  "(let R = (\<lambda>src useAscii. Rendered src);
        s = renderDiagramForSource R Svg ''graph B''
              (renderDiagramForSource R Svg ''graph A'' (initialSession ''preset''))
    in (1::nat) < 2 \<and> requestIdRef s = 2
       \<and> map rc_requestId (renderCalls s) = [1, 2]
       \<and> displayed (settle 1 Svg (Rendered ''<svg>A</svg>'')
                      (settle 2 Svg (Rendered ''<svg>B</svg>'') s)) = (''<svg>B</svg>'', [], [])
       \<and> displayed (settle 2 Svg (Rendered ''<svg>B</svg>'')
                      (settle 1 Svg (Rendered ''<svg>A</svg>'') s)) = (''<svg>B</svg>'', [], []))"
proof -
  let ?R = "\<lambda>(src::string) (useAscii::bool). Rendered src"
  let ?s = "renderDiagramForSource ?R Svg ''graph B''
              (renderDiagramForSource ?R Svg ''graph A'' (initialSession ''preset''))"
  have cur: "requestIdRef ?s = 2"
    by (simp add: renderDiagramForSource_def initialSession_def preIncrement_def Let_def)
  have calls: "map rc_requestId (renderCalls ?s) = [1, 2]"
    by (simp add: renderDiagramForSource_def initialSession_def preIncrement_def Let_def)
  have lt: "(1::nat) < 2" by simp
  show ?thesis
    using stale_result_fencing [OF lt cur, of Svg "Rendered ''<svg>A</svg>''" Svg
        "Rendered ''<svg>B</svg>''"] cur calls
    by (simp add: Let_def)
qed

text \<open>
  C8. A failure of the renderer that is applied (its request is the current one) clears
  the SVG markup and the text markup and sets the error message to the failure's
  message: when the pending SVG request settles with a throw, and when the text
  renderer throws inside \<open>renderDiagramForSource\<close>.
\<close>

theorem failure_clears_outputs:
  "(requestId = requestIdRef s \<longrightarrow>
      svgMarkup (settle requestId style (Threw e) s) = [] \<and>
      asciiMarkup (settle requestId style (Threw e) s) = [] \<and>
      renderError (settle requestId style (Threw e) s) = errorText e)
   \<and> (style \<noteq> Svg \<and> R source (style = Ascii) = Threw e \<longrightarrow>
      svgMarkup (renderDiagramForSource R style source s) = [] \<and>
      asciiMarkup (renderDiagramForSource R style source s) = [] \<and>
      renderError (renderDiagramForSource R style source s) = errorText e)"
  by (simp add: settle_def renderDiagramForSource_def Let_def)

theorem failure_clears_outputs_witness:
  "(let s = (initialSession ''preset'')
              \<lparr>requestIdRef := 4, svgMarkup := ''<svg/>'', asciiMarkup := ''+--+''\<rparr>;
        R = (\<lambda>src useAscii. Threw (OtherValue ''bad input''))
    in (4::nat) = requestIdRef s
       \<and> displayed (settle 4 Svg (Threw (ErrorObject ''parse error'')) s)
           = ([], [], ''parse error'')
       \<and> Unicode \<noteq> Svg \<and> R ''x'' (Unicode = Ascii) = Threw (OtherValue ''bad input'')
       \<and> displayed (renderDiagramForSource R Unicode ''x'' s) = ([], [], ''bad input''))"
proof -
  let ?s = "(initialSession ''preset'')
              \<lparr>requestIdRef := 4, svgMarkup := ''<svg/>'', asciiMarkup := ''+--+''\<rparr>"
  let ?R = "\<lambda>(src::string) (useAscii::bool). Threw (OtherValue ''bad input'')"
  have cur: "(4::nat) = requestIdRef ?s" by (simp add: initialSession_def)
  show ?thesis
    using cur
      failure_clears_outputs [of 4 ?s Svg "ErrorObject ''parse error''" ?R "''x''"]
      failure_clears_outputs [of 4 ?s Unicode "OtherValue ''bad input''" ?R "''x''"]
    by (simp add: Let_def displayed_def)
qed

lemma filter_tracked:
  "map tm_id ts = [i] \<Longrightarrow> filter (\<lambda>t. tm_id t \<noteq> i) ts = []"
  by (cases ts) auto

lemma handleSourceInput_pending:
  assumes "timerTracked s" and "renderCalls s = renderCalls s0"
    and "requestIdRef s = requestIdRef s0" and "renderStyle s = renderStyle s0"
  shows "pendingEdit s0 (handleSourceInput src s) src"
  using assms
  by (auto simp: pendingEdit_def handleSourceInput_def timerTracked_def setTimeout_def
      clearTimeout_def filter_tracked Let_def split: option.splits)

lemma elapse_short:
  assumes "pendingEdit s0 s src" and "g < 120"
  shows "elapse R g s = s\<lparr>now := now s + g\<rparr>"
  using assms by (auto simp: pendingEdit_def elapse_def Let_def)

lemma edits_pending:
  assumes "pendingEdit s0 s src" and "\<forall>(g, e) \<in> set rest. g < 120"
  shows "pendingEdit s0 (edits R rest s) (last (src # map snd rest))"
  using assms
proof (induction rest arbitrary: s src)
  case Nil
  then show ?case by simp
next
  case (Cons p rest)
  obtain g e where p: "p = (g, e)" by (cases p)
  from Cons.prems p have g: "g < 120" by simp
  have el: "elapse R g s = s\<lparr>now := now s + g\<rparr>"
    using Cons.prems(1) g by (rule elapse_short)
  have tracked: "timerTracked (s\<lparr>now := now s + g\<rparr>)"
    using Cons.prems(1) by (auto simp: pendingEdit_def timerTracked_def)
  have "pendingEdit s0 (handleSourceInput e (s\<lparr>now := now s + g\<rparr>)) e"
    using tracked Cons.prems(1)
    by (intro handleSourceInput_pending) (auto simp: pendingEdit_def)
  then have "pendingEdit s0 (edits R rest (handleSourceInput e (s\<lparr>now := now s + g\<rparr>)))
               (last (e # map snd rest))"
    using Cons.prems(2) by (intro Cons.IH) auto
  then show ?case by (simp add: p el)
qed

lemma timers_settle [simp]: "timers (settle n st r s) = timers s"
  by (simp add: settle_def split: outcome.split)

lemma elapse_long:
  assumes "pendingEdit s0 s src" and "120 \<le> d"
  shows "renderCalls (elapse R d s) = renderCalls s0 @
           [\<lparr>rc_requestId = preIncrement (requestIdRef s0), rc_source = src,
             rc_style = renderStyle s0\<rparr>]
         \<and> timers (elapse R d s) = [] \<and> sourceCommitTimeoutRef (elapse R d s) = None"
  using assms
  by (auto simp: pendingEdit_def elapse_def runTimer_def renderDiagramForSource_def Let_def)

text \<open>
  C7. Debounce coalescing. An edit arrives in a state where the ref and the timer queue
  agree, and further edits follow, each less than 120ms after the one before. Then no
  render is issued during the burst, and once 120ms or more have passed after the last
  edit exactly one render has been issued, for the text of the last edit, and no timeout
  is left. Each edit leaves exactly one timeout queued: a new one, due 120ms later and
  carrying that edit's text.
\<close>

theorem debounce_coalesces:
  assumes "timerTracked s" and "\<forall>(gap, source) \<in> set rest. gap < 120" and "120 \<le> d"
  shows "renderCalls (edits R rest (handleSourceInput first s)) = renderCalls s
       \<and> renderCalls (elapse R d (edits R rest (handleSourceInput first s))) =
           renderCalls s @
             [\<lparr>rc_requestId = preIncrement (requestIdRef s),
               rc_source = last (first # map snd rest), rc_style = renderStyle s\<rparr>]
       \<and> timers (elapse R d (edits R rest (handleSourceInput first s))) = []
       \<and> (\<forall>v. map (\<lambda>t. (tm_due t, tm_source t)) (timers (handleSourceInput v s)) =
             [(now s + 120, v)])"
proof -
  have p0: "pendingEdit s (handleSourceInput first s) first"
    using assms(1) by (intro handleSourceInput_pending) simp_all
  then have p1: "pendingEdit s (edits R rest (handleSourceInput first s))
                   (last (first # map snd rest))"
    using assms(2) by (rule edits_pending)
  have a: "renderCalls (edits R rest (handleSourceInput first s)) = renderCalls s"
    using p1 by (simp add: pendingEdit_def)
  have b: "renderCalls (elapse R d (edits R rest (handleSourceInput first s))) =
           renderCalls s @
             [\<lparr>rc_requestId = preIncrement (requestIdRef s),
               rc_source = last (first # map snd rest), rc_style = renderStyle s\<rparr>]"
    using elapse_long [OF p1 assms(3)] by simp
  have c: "map (\<lambda>t. (tm_due t, tm_source t)) (timers (handleSourceInput v s)) =
             [(now s + 120, v)]" for v
    using assms(1)
    by (auto simp: handleSourceInput_def timerTracked_def setTimeout_def
        clearTimeout_def filter_tracked Let_def split: option.splits)
  have e: "timers (elapse R d (edits R rest (handleSourceInput first s))) = []"
    using elapse_long [OF p1 assms(3)] by simp
  from a b c e show ?thesis by blast
qed

theorem debounce_coalesces_witness:
  "(let R = (\<lambda>src useAscii. Rendered src);
        s = initialSession ''preset'';
        rest = [(40, ''ab''), (100, ''abc'')]
    in timerTracked s \<and> (\<forall>(gap, source) \<in> set rest. gap < 120) \<and> (120::nat) \<le> 120
       \<and> renderCalls (edits R rest (handleSourceInput ''a'' s)) = []
       \<and> renderCalls (elapse R 120 (edits R rest (handleSourceInput ''a'' s))) =
           [\<lparr>rc_requestId = 1, rc_source = ''abc'', rc_style = Svg\<rparr>])"
proof -
  let ?R = "\<lambda>(src::string) (useAscii::bool). Rendered src"
  let ?s = "initialSession ''preset''"
  let ?rest = "[(40::nat, ''ab''), (100, ''abc'')]"
  have h1: "timerTracked ?s" by (simp add: timerTracked_def initialSession_def)
  have h2: "\<forall>(gap, source) \<in> set ?rest. gap < 120" by simp
  have h3: "(120::nat) \<le> 120" by simp
  show ?thesis
    using h1 h2 h3 debounce_coalesces [OF h1 h2 h3, of ?R "''a''"]
    by (simp add: Let_def initialSession_def preIncrement_def)
qed

section \<open>Properties of the share-link codec\<close>

subsection \<open>UTF-8 and UTF-16\<close>

lemma unat_byte_of_nat: "n < 256 \<Longrightarrow> unat (of_nat n :: 8 word) = n"
  by (simp add: unat_of_nat)


lemma mod_lead2: "k < 32 \<Longrightarrow> (192 + k) mod 32 = (k::nat)"
  using mod_mult_self3 [of 6 32 k] by simp

lemma mod_lead3: "k < 16 \<Longrightarrow> (224 + k) mod 16 = (k::nat)"
  using mod_mult_self3 [of 14 16 k] by simp

lemma mod_lead4: "k < 8 \<Longrightarrow> (240 + k) mod 8 = (k::nat)"
  using mod_mult_self3 [of 30 8 k] by simp

lemma mod_cont: "k < 64 \<Longrightarrow> (128 + k) mod 64 = (k::nat)"
  using mod_mult_self3 [of 2 64 k] by simp

lemma decode_ascii:
  assumes "unat b < 128"
  shows "utf8Decode 0 0 0x80 0xBF (b # rest) = unat b # utf8Decode 0 0 0x80 0xBF rest"
  using assms by simp

lemma decode_cont_last:
  assumes "unat b = 128 + l" and "l < 64" and "lower \<le> 128 + l" and "128 + l \<le> upper"
  shows "utf8Decode cp (Suc 0) lower upper (b # rest) = (cp * 64 + l) # utf8Decode 0 0 0x80 0xBF rest"
  using assms by (simp add: mod_cont)

lemma decode_cont_more:
  assumes "unat b = 128 + l" and "l < 64" and "lower \<le> 128 + l" and "128 + l \<le> upper"
    and "1 < needed"
  shows "utf8Decode cp needed lower upper (b # rest) =
           utf8Decode (cp * 64 + l) (needed - 1) 0x80 0xBF rest"
  using assms by (simp add: mod_cont)

lemma decode_lead2:
  assumes "unat b = 192 + h" and "2 \<le> h" and "h < 32"
  shows "utf8Decode 0 0 0x80 0xBF (b # rest) = utf8Decode h 1 0x80 0xBF rest"
  using assms by (simp add: mod_lead2)

lemma decode_lead3:
  assumes "unat b = 224 + h" and "h < 16"
  shows "utf8Decode 0 0 0x80 0xBF (b # rest) =
           utf8Decode h 2 (if h = 0 then 0xA0 else 0x80) (if h = 13 then 0x9F else 0xBF) rest"
  using assms by (simp add: mod_lead3)

lemma decode_lead4:
  assumes "unat b = 240 + h" and "h \<le> 4"
  shows "utf8Decode 0 0 0x80 0xBF (b # rest) =
           utf8Decode h 3 (if h = 0 then 0x90 else 0x80) (if h = 4 then 0x8F else 0xBF) rest"
  using assms by (simp add: mod_lead4)

declare utf8Decode.simps [simp del]

lemma utf8_roundtrip1:
  assumes "cp < 0x80"
  shows "utf8Decode 0 0 0x80 0xBF (utf8Encode1 cp @ rest) = cp # utf8Decode 0 0 0x80 0xBF rest"
proof -
  define b where "b = (of_nat cp :: 8 word)"
  have ub: "unat b = cp" unfolding b_def using assms by (intro unat_byte_of_nat) simp
  have enc: "utf8Encode1 cp = [b]" using assms by (simp add: utf8Encode1_def b_def)
  show ?thesis unfolding enc using decode_ascii [of b rest] assms ub by simp
qed

lemma utf8_roundtrip2:
  assumes "0x80 \<le> cp" and "cp < 0x800"
  shows "utf8Decode 0 0 0x80 0xBF (utf8Encode1 cp @ rest) = cp # utf8Decode 0 0 0x80 0xBF rest"
proof -
  define h where "h = cp div 64"
  define l where "l = cp mod 64"
  define b1 where "b1 = (of_nat (192 + h) :: 8 word)"
  define b2 where "b2 = (of_nat (128 + l) :: 8 word)"
  have h: "2 \<le> h" "h < 32" using assms by (simp_all add: h_def)
  have l: "l < 64" by (simp add: l_def)
  have u1: "unat b1 = 192 + h" unfolding b1_def using h by (intro unat_byte_of_nat) simp
  have u2: "unat b2 = 128 + l" unfolding b2_def using l by (intro unat_byte_of_nat) simp
  have enc: "utf8Encode1 cp = [b1, b2]"
    using assms by (simp add: utf8Encode1_def b1_def b2_def h_def l_def)
  have cp: "h * 64 + l = cp" by (simp add: h_def l_def)
  have "utf8Decode 0 0 0x80 0xBF (b1 # b2 # rest) = utf8Decode h 1 0x80 0xBF (b2 # rest)"
    using u1 h by (rule decode_lead2)
  also have "\<dots> = (h * 64 + l) # utf8Decode 0 0 0x80 0xBF rest"
    using decode_cont_last [OF u2 l, of 128 191 h rest] l by simp
  finally show ?thesis unfolding enc cp by simp
qed

lemma utf8_roundtrip3:
  assumes "0x800 \<le> cp" and "cp < 0x10000" and "isScalarValue cp"
  shows "utf8Decode 0 0 0x80 0xBF (utf8Encode1 cp @ rest) = cp # utf8Decode 0 0 0x80 0xBF rest"
proof -
  define h where "h = cp div 4096"
  define m where "m = cp div 64 mod 64"
  define l where "l = cp mod 64"
  define b1 where "b1 = (of_nat (224 + h) :: 8 word)"
  define b2 where "b2 = (of_nat (128 + m) :: 8 word)"
  define b3 where "b3 = (of_nat (128 + l) :: 8 word)"
  have h: "h < 16" using assms by (simp add: h_def)
  have m: "m < 64" by (simp add: m_def)
  have l: "l < 64" by (simp add: l_def)
  have hd: "h = cp div 64 div 64" by (simp add: h_def div_mult2_eq [symmetric])
  have cp: "(h * 64 + m) * 64 + l = cp" by (simp add: hd m_def l_def)
  have lo: "h = 0 \<Longrightarrow> 32 \<le> m"
  proof -
    assume "h = 0"
    then have "cp div 64 < 64" using hd by (simp add: div_eq_0_iff)
    moreover have "32 \<le> cp div 64" using assms(1) by simp
    ultimately show ?thesis by (simp add: m_def)
  qed
  have hi: "h = 13 \<Longrightarrow> m < 32"
  proof -
    assume h13: "h = 13"
    have "cp < 0xD800 \<or> 0xE000 \<le> cp" using assms(3) by (auto simp: isScalarValue_def)
    moreover have "cp < 0xE000" using h13 cp m l by simp
    ultimately have "cp < 0xD800" by simp
    then show ?thesis using h13 cp by simp
  qed
  have b_lo: "(if h = 0 then 0xA0 else 0x80) \<le> 128 + m" using lo by auto
  have b_hi: "128 + m \<le> (if h = 13 then 0x9F else 0xBF)" using hi m by auto
  have u1: "unat b1 = 224 + h" unfolding b1_def using h by (intro unat_byte_of_nat) simp
  have u2: "unat b2 = 128 + m" unfolding b2_def using m by (intro unat_byte_of_nat) simp
  have u3: "unat b3 = 128 + l" unfolding b3_def using l by (intro unat_byte_of_nat) simp
  have enc: "utf8Encode1 cp = [b1, b2, b3]"
    using assms by (simp add: utf8Encode1_def b1_def b2_def b3_def h_def m_def l_def)
  have "utf8Decode 0 0 0x80 0xBF (b1 # b2 # b3 # rest) =
          utf8Decode h 2 (if h = 0 then 0xA0 else 0x80) (if h = 13 then 0x9F else 0xBF)
            (b2 # b3 # rest)"
    using u1 h by (rule decode_lead3)
  also have "\<dots> = utf8Decode (h * 64 + m) 1 0x80 0xBF (b3 # rest)"
    using decode_cont_more [OF u2 m b_lo b_hi, of 2 h "b3 # rest"] by simp
  also have "\<dots> = ((h * 64 + m) * 64 + l) # utf8Decode 0 0 0x80 0xBF rest"
    using decode_cont_last [OF u3 l, of 128 191 "h * 64 + m" rest] l by simp
  finally show ?thesis unfolding enc cp by simp
qed

lemma utf8_roundtrip4:
  assumes "0x10000 \<le> cp" and "cp < 0x110000"
  shows "utf8Decode 0 0 0x80 0xBF (utf8Encode1 cp @ rest) = cp # utf8Decode 0 0 0x80 0xBF rest"
proof -
  define h where "h = cp div 262144"
  define m where "m = cp div 4096 mod 64"
  define n where "n = cp div 64 mod 64"
  define l where "l = cp mod 64"
  define b1 where "b1 = (of_nat (240 + h) :: 8 word)"
  define b2 where "b2 = (of_nat (128 + m) :: 8 word)"
  define b3 where "b3 = (of_nat (128 + n) :: 8 word)"
  define b4 where "b4 = (of_nat (128 + l) :: 8 word)"
  have h: "h \<le> 4" using assms by (simp add: h_def)
  have m: "m < 64" by (simp add: m_def)
  have n: "n < 64" by (simp add: n_def)
  have l: "l < 64" by (simp add: l_def)
  have d1: "cp div 4096 = cp div 64 div 64" by (simp add: div_mult2_eq [symmetric])
  have d2: "h = cp div 4096 div 64" by (simp add: h_def div_mult2_eq [symmetric])
  have c1: "h * 64 + m = cp div 4096" by (simp add: d2 m_def)
  have c2: "(h * 64 + m) * 64 + n = cp div 64" unfolding c1 by (simp add: d1 n_def)
  have cp: "((h * 64 + m) * 64 + n) * 64 + l = cp" unfolding c2 by (simp add: l_def)
  have lo: "h = 0 \<Longrightarrow> 16 \<le> m"
  proof -
    assume "h = 0"
    then have "m = cp div 4096" using c1 by simp
    moreover have "16 \<le> cp div 4096" using assms(1) by simp
    ultimately show ?thesis by simp
  qed
  have hi: "h = 4 \<Longrightarrow> m < 16"
  proof -
    assume "h = 4"
    then have "256 + m = cp div 4096" using c1 by simp
    moreover have "cp div 4096 < 272" using assms(2) by simp
    ultimately show ?thesis by simp
  qed
  have b_lo: "(if h = 0 then 0x90 else 0x80) \<le> 128 + m" using lo by auto
  have b_hi: "128 + m \<le> (if h = 4 then 0x8F else 0xBF)" using hi m by auto
  have u1: "unat b1 = 240 + h" unfolding b1_def using h by (intro unat_byte_of_nat) simp
  have u2: "unat b2 = 128 + m" unfolding b2_def using m by (intro unat_byte_of_nat) simp
  have u3: "unat b3 = 128 + n" unfolding b3_def using n by (intro unat_byte_of_nat) simp
  have u4: "unat b4 = 128 + l" unfolding b4_def using l by (intro unat_byte_of_nat) simp
  have enc: "utf8Encode1 cp = [b1, b2, b3, b4]"
    using assms by (simp add: utf8Encode1_def b1_def b2_def b3_def b4_def h_def m_def n_def l_def)
  have "utf8Decode 0 0 0x80 0xBF (b1 # b2 # b3 # b4 # rest) =
          utf8Decode h 3 (if h = 0 then 0x90 else 0x80) (if h = 4 then 0x8F else 0xBF)
            (b2 # b3 # b4 # rest)"
    using u1 h by (rule decode_lead4)
  also have "\<dots> = utf8Decode (h * 64 + m) 2 0x80 0xBF (b3 # b4 # rest)"
    using decode_cont_more [OF u2 m b_lo b_hi, of 3 h "b3 # b4 # rest"] by simp
  also have "\<dots> = utf8Decode ((h * 64 + m) * 64 + n) 1 0x80 0xBF (b4 # rest)"
    using decode_cont_more [OF u3 n, of 128 191 2 "h * 64 + m" "b4 # rest"] n by simp
  also have "\<dots> = (((h * 64 + m) * 64 + n) * 64 + l) # utf8Decode 0 0 0x80 0xBF rest"
    using decode_cont_last [OF u4 l, of 128 191 "(h * 64 + m) * 64 + n" rest] l by simp
  finally show ?thesis unfolding enc cp by simp
qed

lemma utf8_roundtrip_step:
  assumes "isScalarValue cp"
  shows "utf8Decode 0 0 0x80 0xBF (utf8Encode1 cp @ rest) = cp # utf8Decode 0 0 0x80 0xBF rest"
proof -
  have "cp < 0x110000" using assms by (auto simp: isScalarValue_def)
  then consider "cp < 0x80" | "0x80 \<le> cp \<and> cp < 0x800" | "0x800 \<le> cp \<and> cp < 0x10000"
    | "0x10000 \<le> cp \<and> cp < 0x110000"
    by linarith
  then show ?thesis
  proof cases
    case 1 then show ?thesis by (rule utf8_roundtrip1)
  next
    case 2 then show ?thesis by (simp add: utf8_roundtrip2)
  next
    case 3 then show ?thesis using assms by (simp add: utf8_roundtrip3)
  next
    case 4 then show ?thesis by (simp add: utf8_roundtrip4)
  qed
qed

lemma utf8_roundtrip:
  assumes "list_all isScalarValue cps"
  shows "utf8Decode 0 0 0x80 0xBF (utf8Encode cps) = cps"
  using assms
proof (induction cps)
  case Nil
  then show ?case by (simp add: utf8Encode_def utf8Decode.simps)
next
  case (Cons cp cps)
  then show ?case using utf8_roundtrip_step [of cp "utf8Encode cps"]
    by (simp add: utf8Encode_def)
qed

lemma unat_unit_bound: "unat (c :: 16 word) < 65536"
  using unsigned_less [of c, where ?'a = nat] by simp

lemma unit_scalar:
  "\<not> isHighSurrogate (unat (c :: 16 word)) \<Longrightarrow> \<not> isLowSurrogate (unat c) \<Longrightarrow>
     isScalarValue (unat c)"
  using unat_unit_bound [of c]
  by (auto simp: isHighSurrogate_def isLowSurrogate_def isScalarValue_def)

lemma pair_scalar:
  "isHighSurrogate u \<Longrightarrow> isLowSurrogate v \<Longrightarrow>
     isScalarValue (0x10000 + (u - 0xD800) * 0x400 + (v - 0xDC00))"
  by (auto simp: isHighSurrogate_def isLowSurrogate_def isScalarValue_def)

lemma replacement_scalar: "isScalarValue 0xFFFD"
  by (simp add: isScalarValue_def)

lemma toScalarValues_scalar: "list_all isScalarValue (toScalarValues s)"
  by (induction s rule: toScalarValues.induct)
    (simp_all add: unit_scalar pair_scalar replacement_scalar)

lemma utf16_unit:
  "\<not> isHighSurrogate (unat (c :: 16 word)) \<Longrightarrow> \<not> isLowSurrogate (unat c) \<Longrightarrow>
     utf16Encode1 (unat c) = [c]"
  using unat_unit_bound [of c] by (simp add: utf16Encode1_def)

lemma utf16_pair:
  assumes "isHighSurrogate (unat (c :: 16 word))" and "isLowSurrogate (unat (d :: 16 word))"
  shows "utf16Encode1 (0x10000 + (unat c - 0xD800) * 0x400 + (unat d - 0xDC00)) = [c, d]"
proof -
  define a where "a = unat c - 0xD800"
  define b where "b = unat d - 0xDC00"
  have a: "unat c = 0xD800 + a" "a < 0x400"
    using assms(1) by (auto simp: a_def isHighSurrogate_def)
  have b: "unat d = 0xDC00 + b" "b < 0x400"
    using assms(2) by (auto simp: b_def isLowSurrogate_def)
  have q: "(a * 0x400 + b) div 0x400 = a" using b(2) by simp
  have r: "(a * 0x400 + b) mod 0x400 = b" using b(2) by simp
  have "utf16Encode1 (0x10000 + a * 0x400 + b) =
          [of_nat (0xD800 + a), of_nat (0xDC00 + b)]"
    unfolding utf16Encode1_def using q r by (simp add: add.assoc)
  also have "\<dots> = [of_nat (unat c), of_nat (unat d)]"
    unfolding a(1) b(1) by simp
  finally show ?thesis by (simp add: a_def b_def)
qed

lemma utf16_roundtrip:
  "isWellFormed s \<Longrightarrow> fromScalarValues (toScalarValues s) = s"
proof (induction s rule: toScalarValues.induct)
  case 1
  then show ?case by (simp add: fromScalarValues_def)
next
  case (2 c)
  then show ?case by (simp add: fromScalarValues_def utf16_unit)
next
  case (3 c d rest)
  show ?case
  proof (cases "isHighSurrogate (unat c)")
    case True
    with 3 show ?thesis
      using utf16_pair [of c d] by (simp add: fromScalarValues_def)
  next
    case False
    with 3 show ?thesis
      using utf16_unit [of c] by (simp add: fromScalarValues_def)
  qed
qed

lemma toScalarValues_BOM:
  "isWellFormed s \<Longrightarrow> (s = [] \<or> hd s \<noteq> 0xFEFF) \<Longrightarrow>
     dropBOM (toScalarValues s) = toScalarValues s"
proof (induction s rule: toScalarValues.induct)
  case 1
  then show ?case by simp
next
  case (2 c)
  then show ?case by (simp add: word_unat_eq_iff)
next
  case (3 c d rest)
  then have "unat c \<noteq> 0xFEFF" by (simp add: word_unat_eq_iff)
  moreover have "isHighSurrogate (unat c) \<Longrightarrow> isLowSurrogate (unat d) \<Longrightarrow>
      0x10000 + (unat c - 0xD800) * 0x400 + (unat d - 0xDC00) \<noteq> 0xFEFF"
    by simp
  ultimately show ?case by simp
qed

lemma text_roundtrip:
  assumes "isWellFormed s" and "s = [] \<or> hd s \<noteq> 0xFEFF"
  shows "textDecoderDecode (textEncoderEncode s) = s"
  using assms
  by (simp add: textDecoderDecode_def textEncoderEncode_def utf8_roundtrip
      toScalarValues_scalar toScalarValues_BOM utf16_roundtrip)



















subsection \<open>Base64\<close>

lemma length_base64Alphabet: "length base64Alphabet = 64"
  by (simp add: base64Alphabet_def js_def)

lemma distinct_base64Alphabet: "distinct base64Alphabet"
  by (simp add: base64Alphabet_def js_def)

lemma indexOf_nth: "distinct xs \<Longrightarrow> n < length xs \<Longrightarrow> indexOf (xs ! n) xs = Some n"
proof (induction xs arbitrary: n)
  case Nil
  then show ?case by simp
next
  case (Cons x xs)
  show ?case
  proof (cases n)
    case 0
    then show ?thesis by simp
  next
    case (Suc m)
    with Cons.prems have "xs ! m \<noteq> x" by auto
    with Suc Cons show ?thesis by simp
  qed
qed

lemma base64Value_base64Char: "n < 64 \<Longrightarrow> base64Value (base64Char n) = Some n"
  by (simp add: base64Value_def base64Char_def indexOf_nth distinct_base64Alphabet
      length_base64Alphabet)

lemma base64Alphabet_plain:
  "list_all (\<lambda>c. c \<noteq> 0x3D \<and> c \<noteq> 0x2D \<and> c \<noteq> 0x5F \<and> \<not> isAsciiWhitespace c) base64Alphabet"
  by (simp add: base64Alphabet_def js_def isAsciiWhitespace_def)

lemma base64Char_plain:
  assumes "n < 64"
  shows "base64Char n \<noteq> 0x3D" and "base64Char n \<noteq> 0x2D" and "base64Char n \<noteq> 0x5F"
    and "\<not> isAsciiWhitespace (base64Char n)"
proof -
  have "base64Char n \<in> set base64Alphabet"
    using assms by (simp add: base64Char_def length_base64Alphabet)
  then show "base64Char n \<noteq> 0x3D" and "base64Char n \<noteq> 0x2D" and "base64Char n \<noteq> 0x5F"
    and "\<not> isAsciiWhitespace (base64Char n)"
    using base64Alphabet_plain by (auto simp: list_all_iff)
qed

lemma unat_byte_bound: "unat (b :: byte) < 256"
  using unsigned_less [of b, where ?'a = nat] by simp

lemma toSextets_bound: "list_all (\<lambda>n. n < 64) (toSextets bytes)"
proof (induction bytes rule: toSextets.induct)
  case (1 a b c rest)
  have "unat a div 4 < 64" "unat a mod 4 * 16 + unat b div 16 < 64"
    "unat b mod 16 * 4 + unat c div 64 < 64"
    using unat_byte_bound [of a] unat_byte_bound [of b] unat_byte_bound [of c] by simp_all
  with 1 show ?case by simp
next
  case (2 a b)
  have "unat a div 4 < 64" "unat a mod 4 * 16 + unat b div 16 < 64" "unat b mod 16 * 4 < 64"
    using unat_byte_bound [of a] unat_byte_bound [of b] by simp_all
  then show ?case by simp
next
  case (3 a)
  have "unat a div 4 < 64" "unat a mod 4 * 16 < 64"
    using unat_byte_bound [of a] by simp_all
  then show ?case by simp
next
  case 4
  then show ?case by simp
qed

lemma base64Encode_sextets:
  "base64Encode bytes = map base64Char (toSextets bytes) @ replicate (padLength bytes) 0x3D"
  by (induction bytes rule: toSextets.induct) (simp_all add: numeral_2_eq_2)

lemma length_toSextets_pad:
  "(length (toSextets bytes) + padLength bytes) mod 4 = 0 \<and> padLength bytes \<le> 2 \<and>
   length (toSextets bytes) mod 4 \<noteq> 1 \<and> (bytes \<noteq> [] \<longrightarrow> toSextets bytes \<noteq> [])"
  by (induction bytes rule: toSextets.induct) simp_all

lemma byte_recombine1: "(of_nat (unat a div 4 * 4 + (unat a mod 4 * 16 + x div 16) div 16) :: byte) = a"
  if "x < 256" for a :: byte and x :: nat
proof -
  have "(unat a mod 4 * 16 + x div 16) div 16 = unat a mod 4" using that by simp
  then show ?thesis by simp
qed

lemma byte_recombine2:
  "(of_nat ((unat a mod 4 * 16 + unat b div 16) mod 16 * 16 + (unat b mod 16 * 4 + x div 64) div 4) :: byte) = b"
  if "x < 256" for a b :: byte and x :: nat
proof -
  have 1: "(unat a mod 4 * 16 + unat b div 16) mod 16 = unat b div 16"
    using unat_byte_bound [of b] by simp
  have 2: "(unat b mod 16 * 4 + x div 64) div 4 = unat b mod 16" using that by simp
  show ?thesis unfolding 1 2 by simp
qed

lemma byte_recombine3:
  "(of_nat ((unat b mod 16 * 4 + unat c div 64) mod 4 * 64 + unat c mod 64) :: byte) = c"
  for b c :: byte
proof -
  have 1: "(unat b mod 16 * 4 + unat c div 64) mod 4 = unat c div 64"
    using unat_byte_bound [of c] by simp
  show ?thesis unfolding 1 by simp
qed

lemma base64Decode_toSextets: "base64Decode (toSextets bytes) = bytes"
proof (induction bytes rule: toSextets.induct)
  case (1 a b c rest)
  then show ?case
    using byte_recombine1 [of "unat b" a] byte_recombine2 [of "unat c" a b]
      byte_recombine3 [of b c] unat_byte_bound [of b] unat_byte_bound [of c]
    by simp
next
  case (2 a b)
  then show ?case
    using byte_recombine1 [of "unat b" a] byte_recombine2 [of 0 a b] unat_byte_bound [of b]
    by simp
next
  case (3 a)
  then show ?case using byte_recombine1 [of 0 a] by simp
next
  case 4
  then show ?case by simp
qed

lemma ucast_byte_id: "(ucast (ucast (b :: byte) :: 16 word) :: byte) = b"
  by (rule ucast_up_ucast_id) (simp add: is_up)

lemma map_ucast_byte_id: "map ucast (map ucast (bytes :: byte list) :: 16 word list) = bytes"
  by (induction bytes) (simp_all add: ucast_byte_id)

lemma ucast_byte_le: "\<not> 0xFF < (ucast (b :: byte) :: 16 word)"
proof -
  have "unat (ucast b :: 16 word) = unat b"
    by (simp add: unsigned_ucast_eq take_bit_nat_eq_self unat_byte_bound less_trans [OF unat_byte_bound])
  then show ?thesis using unat_byte_bound [of b] by (simp add: word_less_nat_alt)
qed

lemma binaryChunks_drop: "binaryChunks offset bytes = map ucast (drop offset bytes)"
proof (induction offset bytes rule: binaryChunks.induct)
  case (1 offset bytes)
  show ?case
  proof (cases "offset < length bytes")
    case True
    have "take 0x8000 (drop offset bytes) @ drop (offset + 0x8000) bytes = drop offset bytes"
      using append_take_drop_id [where n = "0x8000" and xs = "drop offset bytes"]
      by (simp add: add.commute)
    then have "map ucast (take 0x8000 (drop offset bytes))
                 @ map ucast (drop (offset + 0x8000) bytes)
               = (map ucast (drop offset bytes) :: 16 word list)"
      by (simp only: map_append [symmetric])
    with True 1 show ?thesis
      by (subst binaryChunks.simps) simp
  next
    case False
    then show ?thesis by (subst binaryChunks.simps) simp
  qed
qed

lemma btoa_bytes: "btoa (map ucast (bytes :: byte list)) = Inr (base64Encode bytes)"
proof -
  have "\<not> list_ex (\<lambda>c. 0xFF < c) (map ucast bytes :: 16 word list)"
    by (simp add: list_ex_iff ucast_byte_le)
  then show ?thesis
    unfolding btoa_def by (simp only: map_ucast_byte_id if_False)
qed

lemma dropWhile_replicate:
  "dropWhile (\<lambda>c. c = e) (replicate p e @ ys) = dropWhile (\<lambda>c. c = e) ys"
  by (induction p) simp_all

lemma strip_pad:
  assumes "\<forall>c \<in> set xs. c \<noteq> e"
  shows "rev (dropWhile (\<lambda>c. c = e) (rev (xs @ replicate p e))) = xs"
proof -
  have stop: "dropWhile (\<lambda>c. c = e) (rev xs) = rev xs"
  proof (cases "rev xs")
    case Nil
    then show ?thesis by simp
  next
    case (Cons y ys)
    then have "y \<in> set (rev xs)" by simp
    then have "y \<noteq> e" using assms by simp
    with Cons show ?thesis by simp
  qed
  have "rev (xs @ replicate p e) = replicate p e @ rev xs" by simp
  then show ?thesis by (simp only: dropWhile_replicate stop rev_rev_ident)
qed

lemma sextet_chars:
  assumes "list_all (\<lambda>n. n < 64) sx"
  shows "\<forall>c \<in> set (map base64Char sx).
           c \<noteq> 0x3D \<and> c \<noteq> 0x2D \<and> c \<noteq> 0x5F \<and> \<not> isAsciiWhitespace c"
  using assms base64Char_plain by (auto simp: list_all_iff)

lemma urlSafe_no_equals:
  assumes "\<forall>c \<in> set cs. c \<noteq> 0x3D"
  shows "\<forall>c \<in> set (urlSafe cs). c \<noteq> 0x3D"
  using assms by (auto simp: urlSafe_def replaceAll_def)

lemma urlSafe_append_pad:
  "urlSafe (cs @ replicate p 0x3D) = urlSafe cs @ replicate p 0x3D"
  by (simp add: urlSafe_def replaceAll_def)

lemma urlSafe_inverse:
  assumes "\<forall>c \<in> set cs. c \<noteq> 0x2D \<and> c \<noteq> 0x5F"
  shows "replaceAll 0x5F 0x2F (replaceAll 0x2D 0x2B (urlSafe cs)) = cs"
  using assms by (induction cs) (auto simp: urlSafe_def replaceAll_def)

lemma bytesToBase64Url_eq:
  "bytesToBase64Url bytes = Inr (urlSafe (map base64Char (toSextets bytes)))"
proof -
  let ?cs = "map base64Char (toSextets bytes)"
  have ne: "\<forall>c \<in> set (urlSafe ?cs). c \<noteq> 0x3D"
    using sextet_chars [OF toSextets_bound, of bytes] by (intro urlSafe_no_equals) simp
  have "bytesToBase64Url bytes =
          Inr (stripTrailingEquals (urlSafe (?cs @ replicate (padLength bytes) 0x3D)))"
    by (simp add: bytesToBase64Url_def binaryChunks_drop btoa_bytes base64Encode_sextets
        urlSafe_def)
  also have "stripTrailingEquals (urlSafe (?cs @ replicate (padLength bytes) 0x3D)) = urlSafe ?cs"
    unfolding urlSafe_append_pad stripTrailingEquals.simps using ne by (rule strip_pad)
  finally show ?thesis .
qed

lemma pad_count:
  fixes n p :: nat
  assumes "(n + p) mod 4 = 0" and "p \<le> 2" and "n mod 4 \<noteq> 1"
  shows "(4 - n mod 4) mod 4 = p"
proof -
  have "n mod 4 < 4" by simp
  then consider "n mod 4 = 0" | "n mod 4 = 2" | "n mod 4 = 3" using assms(3) by linarith
  then show ?thesis
  proof cases
    case 1
    then have "p mod 4 = 0" using assms(1) mod_add_left_eq [of n 4 p] by simp
    then show ?thesis using 1 assms(2) by simp
  next
    case 2
    then have "(2 + p) mod 4 = 0" using assms(1) mod_add_left_eq [of n 4 p] by simp
    then have "p = 2" using assms(2) by (cases "p = 0"; cases "p = 1"; cases "p = 2") simp_all
    then show ?thesis using 2 by simp
  next
    case 3
    then have "(3 + p) mod 4 = 0" using assms(1) mod_add_left_eq [of n 4 p] by simp
    then have "p = 1" using assms(2) by (cases "p = 0"; cases "p = 1"; cases "p = 2") simp_all
    then show ?thesis using 3 by simp
  qed
qed

lemma dropEquals_pad:
  assumes "\<forall>c \<in> set cs. c \<noteq> 0x3D" and "p \<le> 2"
  shows "dropEquals (dropEquals (cs @ replicate p 0x3D)) = cs"
proof -
  have keep: "dropEquals cs = cs"
    using assms(1) by (cases cs rule: rev_cases) (simp_all add: dropEquals_def)
  have one: "dropEquals (cs @ [0x3D]) = cs" by (simp add: dropEquals_def)
  have two: "dropEquals (cs @ [0x3D, 0x3D]) = cs @ [0x3D]"
    using butlast_snoc [of "cs @ [0x3D]" "0x3D"] by (simp add: dropEquals_def)
  from assms(2) consider "p = 0" | "p = 1" | "p = 2" by linarith
  then show ?thesis
  proof cases
    case 1 then show ?thesis by (simp add: keep)
  next
    case 2 then show ?thesis by (simp add: one keep)
  next
    case 3 then show ?thesis by (simp add: numeral_2_eq_2 two one)
  qed
qed

lemma those_base64Value:
  "list_all (\<lambda>n. n < 64) sx \<Longrightarrow> those (map base64Value (map base64Char sx)) = Some sx"
  by (induction sx) (simp_all add: base64Value_base64Char)

lemma atob_padded:
  assumes "list_all (\<lambda>n. n < 64) sx" and "(length sx + p) mod 4 = 0" and "p \<le> 2"
    and "length sx mod 4 \<noteq> 1"
  shows "atob (map base64Char sx @ replicate p 0x3D) = Inr (map ucast (base64Decode sx))"
proof -
  let ?cs = "map base64Char sx"
  have plain: "\<forall>c \<in> set ?cs. c \<noteq> 0x3D \<and> c \<noteq> 0x2D \<and> c \<noteq> 0x5F \<and> \<not> isAsciiWhitespace c"
    using assms(1) by (rule sextet_chars)
  have ws: "filter (\<lambda>c. \<not> isAsciiWhitespace c) (?cs @ replicate p 0x3D) = ?cs @ replicate p 0x3D"
    using plain by (simp add: filter_id_conv isAsciiWhitespace_def)
  have len: "length (?cs @ replicate p 0x3D) mod 4 = 0" using assms(2) by simp
  have strip: "dropEquals (dropEquals (?cs @ replicate p 0x3D)) = ?cs"
    using plain assms(3) by (intro dropEquals_pad) simp_all
  have l1: "length ?cs mod 4 \<noteq> 1" using assms(4) by simp
  have d2: "(if length (?cs @ replicate p 0x3D) mod 4 = 0
             then dropEquals (dropEquals (?cs @ replicate p 0x3D))
             else ?cs @ replicate p 0x3D) = ?cs"
    using len strip by simp
  show ?thesis
    unfolding atob_def Let_def ws d2
    using l1 those_base64Value [OF assms(1)] by simp
qed

lemma base64UrlToBytes_roundtrip:
  assumes "bytes \<noteq> []"
  shows "base64UrlToBytes (urlSafe (map base64Char (toSextets bytes))) = Inr bytes"
proof -
  let ?sx = "toSextets bytes"
  let ?cs = "map base64Char ?sx"
  have plain: "\<forall>c \<in> set ?cs. c \<noteq> 0x3D \<and> c \<noteq> 0x2D \<and> c \<noteq> 0x5F \<and> \<not> isAsciiWhitespace c"
    using toSextets_bound by (rule sextet_chars)
  have facts: "(length ?sx + padLength bytes) mod 4 = 0" "padLength bytes \<le> 2"
    "length ?sx mod 4 \<noteq> 1" "?sx \<noteq> []"
    using length_toSextets_pad [of bytes] assms by simp_all
  have ne: "urlSafe ?cs \<noteq> []" using facts(4) by (simp add: urlSafe_def replaceAll_def)
  have norm: "replaceAll 0x5F 0x2F (replaceAll 0x2D 0x2B (urlSafe ?cs)) = ?cs"
    using plain by (intro urlSafe_inverse) simp
  have pad: "(4 - length ?cs mod 4) mod 4 = padLength bytes"
    using pad_count [OF facts(1) facts(2) facts(3)] by simp
  have dec: "atob (?cs @ replicate (padLength bytes) 0x3D) = Inr (map ucast (base64Decode ?sx))"
    using toSextets_bound facts(1) facts(2) facts(3) by (rule atob_padded)
  show ?thesis
    unfolding base64UrlToBytes_def Let_def norm pad dec
    using ne map_ucast_byte_id [of bytes] by (simp add: base64Decode_toSextets)
qed

subsection \<open>Tokens\<close>

lemma replicate_pad: "replicate 2 x = [x, x]" "replicate 3 x = [x, x, x]"
  by (simp_all add: numeral_2_eq_2 numeral_3_eq_3)

lemmas codec_eval = replicate_pad
  encodeDiagramToken_def decodeDiagramToken_def getPayloadFromToken_def compressBytes_def
  decompressBytes_def bytesToBase64Url_def base64UrlToBytes_def binaryChunks_drop btoa_def atob_def
  dropEquals_def isAsciiWhitespace_def replaceAll_def startsWith_def slice_def
  SHARE_PREFIX_def SHARE_VERSION_def SHARE_ALGORITHM_def js_def
  base64Char_def base64Value_def base64Alphabet_def
  textEncoderEncode_def textDecoderDecode_def utf8Encode_def utf8Encode1_def utf8Decode.simps
  fromScalarValues_def utf16Encode1_def isHighSurrogate_def isLowSurrogate_def
  referencePlatform_def zlibStored_def storedBlock_def readStoredBlock_def
  rawInflateStored_def zlibInflateStored_def bigEndian_def Let_def

lemma e1: "encodeDiagramToken (referencePlatform True) (js ''graph TD'') = Inr (js ''v1.d.eAEBCAD3_2dyYXBoIFREDcACyw'')"
  by (simp add: codec_eval)

lemma getPayloadFromToken_prefixed: "getPayloadFromToken (SHARE_PREFIX @ payload) = Inr payload"
  by (simp add: getPayloadFromToken_def startsWith_def slice_def)

text \<open>
  C1, amended. Let \<open>s\<close> be a string without a lone surrogate that does not begin with
  U+FEFF (the empty string and strings with code points of two, three or four bytes
  included), and let the backend in use turn the UTF-8 bytes of \<open>s\<close> into a non-empty
  byte sequence that its own decompressor turns back into those bytes. Then
  \<open>encodeDiagramToken\<close> returns a token, and \<open>decodeDiagramToken\<close> of that token
  returns \<open>s\<close>. The platform \<open>P\<close> is arbitrary: either backend.
\<close>

theorem share_token_roundtrip:
  assumes "isWellFormed s" and "s = [] \<or> hd s \<noteq> 0xFEFF"
    and "compressBytes P (textEncoderEncode s) \<noteq> []"
    and "decompressBytes P (compressBytes P (textEncoderEncode s)) = Inr (textEncoderEncode s)"
  shows "\<exists>token. encodeDiagramToken P s = Inr token \<and> decodeDiagramToken P token = Inr s"
proof -
  let ?compressed = "compressBytes P (textEncoderEncode s)"
  let ?payload = "urlSafe (map base64Char (toSextets ?compressed))"
  have enc: "encodeDiagramToken P s = Inr (SHARE_PREFIX @ ?payload)"
    by (simp add: encodeDiagramToken_def bytesToBase64Url_eq)
  have b64: "base64UrlToBytes ?payload = Inr ?compressed"
    using assms(3) by (rule base64UrlToBytes_roundtrip)
  have text_rt: "textDecoderDecode (textEncoderEncode s) = s"
    using assms(1,2) by (rule text_roundtrip)
  have dec: "decodeDiagramToken P (SHARE_PREFIX @ ?payload) = Inr s"
    unfolding decodeDiagramToken_def getPayloadFromToken_prefixed
    by (simp add: b64 assms(4) text_rt)
  from enc dec show ?thesis by blast
qed

theorem share_token_roundtrip_witness:
  "isWellFormed [0x67, 0xE9, 0x20AC, 0xD83D, 0xDE00] \<and>
   hd [0x67, 0xE9, 0x20AC, 0xD83D, 0xDE00 :: 16 word] \<noteq> 0xFEFF \<and>
   (\<forall>streams.
      compressBytes (referencePlatform streams)
        (textEncoderEncode [0x67, 0xE9, 0x20AC, 0xD83D, 0xDE00]) \<noteq> [] \<and>
      decompressBytes (referencePlatform streams)
        (compressBytes (referencePlatform streams)
          (textEncoderEncode [0x67, 0xE9, 0x20AC, 0xD83D, 0xDE00]))
        = Inr (textEncoderEncode [0x67, 0xE9, 0x20AC, 0xD83D, 0xDE00]) \<and>
      (\<exists>token. encodeDiagramToken (referencePlatform streams) [0x67, 0xE9, 0x20AC, 0xD83D, 0xDE00]
                  = Inr token \<and>
               decodeDiagramToken (referencePlatform streams) token
                  = Inr [0x67, 0xE9, 0x20AC, 0xD83D, 0xDE00]))"
proof -
  let ?s = "[0x67, 0xE9, 0x20AC, 0xD83D, 0xDE00 :: 16 word]"
  have wf: "isWellFormed ?s" by (simp add: isHighSurrogate_def isLowSurrogate_def)
  have bom: "?s = [] \<or> hd ?s \<noteq> 0xFEFF" by simp
  have bytes: "textEncoderEncode ?s = [0x67, 0xC3, 0xA9, 0xE2, 0x82, 0xAC, 0xF0, 0x9F, 0x98, 0x80]"
    by (simp add: codec_eval)
  have ne: "compressBytes (referencePlatform streams) (textEncoderEncode ?s) \<noteq> []" for streams
    unfolding bytes by (simp add: codec_eval)
  have inv: "decompressBytes (referencePlatform streams)
               (compressBytes (referencePlatform streams) (textEncoderEncode ?s))
             = Inr (textEncoderEncode ?s)" for streams
    unfolding bytes by (cases streams) (simp_all add: codec_eval)
  show ?thesis
    using wf bom ne inv share_token_roundtrip [OF wf bom ne inv] by simp
qed

text \<open>
  C1, as the claim states it, fails: the string of U+FEFF followed by \<open>A\<close> is encoded to
  a token under either backend, and the token decodes to the string \<open>A\<close>, because the
  decoder takes the leading U+FEFF for a byte order mark.
\<close>

theorem bom_roundtrip_counterexample:
  "encodeDiagramToken (referencePlatform True) [0xFEFF, 0x41] = Inr (js ''v1.d.eAEBBAD7_--7v0EHsAKr'')
   \<and> decodeDiagramToken (referencePlatform True) (js ''v1.d.eAEBBAD7_--7v0EHsAKr'') = Inr [0x41]
   \<and> encodeDiagramToken (referencePlatform False) [0xFEFF, 0x41] = Inr (js ''v1.d.AQQA-__vu79B'')
   \<and> decodeDiagramToken (referencePlatform False) (js ''v1.d.AQQA-__vu79B'') = Inr [0x41]"
  by (simp add: codec_eval)








text \<open>
  C5. What one backend has compressed reaches the other backend's decompressor as it
  is: \<open>compressBytes\<close> and \<open>decompressBytes\<close> convert nothing. On the reference
  platform, where the two backends speak the formats the real ones speak (zlib for the
  streams, bare DEFLATE for fflate), the bytes of \<open>graph TD\<close> compressed by either
  backend are rejected by the other, and so is the token made from them.
\<close>

theorem cross_backend_mismatch:
  "decompressBytes (P\<lparr>supportsCompressionStream := False\<rparr>)
     (compressBytes (P\<lparr>supportsCompressionStream := True\<rparr>) bytes)
     = (case inflateSync P (compressionStream P bytes) of
          None \<Rightarrow> Inl CorruptStream | Some out \<Rightarrow> Inr out)
   \<and> decompressBytes (P\<lparr>supportsCompressionStream := True\<rparr>)
     (compressBytes (P\<lparr>supportsCompressionStream := False\<rparr>) bytes)
     = (case decompressionStream P (deflateSync P bytes) of
          None \<Rightarrow> Inl CorruptStream | Some out \<Rightarrow> Inr out)
   \<and> decompressBytes (referencePlatform False)
       (compressBytes (referencePlatform True) (textEncoderEncode (js ''graph TD'')))
     = Inl CorruptStream
   \<and> decompressBytes (referencePlatform True)
       (compressBytes (referencePlatform False) (textEncoderEncode (js ''graph TD'')))
     = Inl CorruptStream
   \<and> decodeDiagramToken (referencePlatform False) (js ''v1.d.eAEBCAD3_2dyYXBoIFREDcACyw'')
     = Inl CorruptStream
   \<and> decodeDiagramToken (referencePlatform True) (js ''v1.d.AQgA9_9ncmFwaCBURA'')
     = Inl CorruptStream"
proof -
  have general: "decompressBytes (P\<lparr>supportsCompressionStream := False\<rparr>)
     (compressBytes (P\<lparr>supportsCompressionStream := True\<rparr>) bytes)
     = (case inflateSync P (compressionStream P bytes) of
          None \<Rightarrow> Inl CorruptStream | Some out \<Rightarrow> Inr out)"
    "decompressBytes (P\<lparr>supportsCompressionStream := True\<rparr>)
     (compressBytes (P\<lparr>supportsCompressionStream := False\<rparr>) bytes)
     = (case decompressionStream P (deflateSync P bytes) of
          None \<Rightarrow> Inl CorruptStream | Some out \<Rightarrow> Inr out)"
    by (simp_all add: compressBytes_def decompressBytes_def)
  have bytes: "textEncoderEncode (js ''graph TD'') = [103, 114, 97, 112, 104, 32, 84, 68]"
    by (simp add: codec_eval)
  have c1: "decompressBytes (referencePlatform False)
       (compressBytes (referencePlatform True) (textEncoderEncode (js ''graph TD'')))
     = Inl CorruptStream"
    unfolding bytes by (simp add: codec_eval)
  have c2: "decompressBytes (referencePlatform True)
       (compressBytes (referencePlatform False) (textEncoderEncode (js ''graph TD'')))
     = Inl CorruptStream"
    unfolding bytes by (simp add: codec_eval)
  have c3: "decodeDiagramToken (referencePlatform False) (js ''v1.d.eAEBCAD3_2dyYXBoIFREDcACyw'')
     = Inl CorruptStream"
    by (simp add: codec_eval)
  have c4: "decodeDiagramToken (referencePlatform True) (js ''v1.d.AQgA9_9ncmFwaCBURA'')
     = Inl CorruptStream"
    by (simp add: codec_eval)
  from general c1 c2 c3 c4 show ?thesis by blast
qed

section \<open>Properties of the URL functions\<close>

lemma unat_ucast_byte: "unat (ucast (b :: byte) :: 16 word) = unat b"
  by (simp add: unsigned_ucast_eq take_bit_nat_eq_self less_trans [OF unat_byte_bound])

lemma toScalarValues_ascii:
  "list_all (\<lambda>c. unat c < 0x80) s \<Longrightarrow> toScalarValues s = map unat s"
  by (induction s rule: toScalarValues.induct)
    (simp_all add: isHighSurrogate_def isLowSurrogate_def)

lemma utf8Encode_ascii:
  "list_all (\<lambda>b. unat b < 0x80) bytes \<Longrightarrow> utf8Encode (map unat bytes) = bytes"
  by (induction bytes) (simp_all add: utf8Encode_def utf8Encode1_def)

lemma textEncoderEncode_ascii:
  assumes "list_all (\<lambda>b. unat b < 0x80) bytes"
  shows "textEncoderEncode (map ucast bytes) = bytes"
proof -
  have "list_all (\<lambda>c. unat c < 0x80) (map ucast bytes :: 16 word list)"
    using assms by (simp add: list_all_iff unat_ucast_byte)
  then have "toScalarValues (map ucast bytes) = map unat bytes"
    by (simp add: toScalarValues_ascii unat_ucast_byte comp_def)
  then show ?thesis using assms by (simp add: textEncoderEncode_def utf8Encode_ascii)
qed

lemma isUrlencodedPlain_facts:
  assumes "isUrlencodedPlain b"
  shows "unat b < 0x80" and "b \<noteq> 0x2B" and "b \<noteq> 0x25" and "b \<noteq> 0x3D" and "b \<noteq> 0x26"
    and "b \<noteq> 0x20"
  using assms by (auto simp: isUrlencodedPlain_def)

lemma hexDigit_unat:
  assumes "n < 16"
  shows "unat (hexDigit n) = (if n < 10 then 0x30 + n else 0x37 + n)"
proof (cases "n < 10")
  case True
  then have "unat (of_nat (0x30 + n) :: byte) = 0x30 + n" by (intro unat_byte_of_nat) simp
  with True show ?thesis by (simp only: hexDigit_def if_True)
next
  case False
  have "unat (of_nat (0x37 + n) :: byte) = 0x37 + n" using assms by (intro unat_byte_of_nat) simp
  with False show ?thesis by (simp only: hexDigit_def if_False)
qed

lemma hexDigit_facts:
  assumes "n < 16"
  shows "isUrlencodedPlain (hexDigit n)" and "isHexDigit (hexDigit n)"
    and "hexValue (hexDigit n) = n"
proof -
  note u = hexDigit_unat [OF assms]
  show "isUrlencodedPlain (hexDigit n)" using assms u by (auto simp: isUrlencodedPlain_def)
  show "isHexDigit (hexDigit n)" using assms u by (auto simp: isHexDigit_def)
  show "hexValue (hexDigit n) = n" using assms u by (auto simp: hexValue_def)
qed

lemma percentDecode_skip: "b \<noteq> 0x25 \<Longrightarrow> percentDecode (b # xs) = b # percentDecode xs"
  by (cases "b # xs" rule: percentDecode.cases) simp_all

lemma byte_div_mod: "(of_nat (unat b div 16 * 16 + unat b mod 16) :: byte) = b"
  by simp

lemma percentDecode_step:
  "percentDecode (map (\<lambda>b. if b = 0x2B then 0x20 else b) (urlencodedByte b) @ rest)
     = b # percentDecode rest"
proof -
  consider "b = 0x20" | "b \<noteq> 0x20 \<and> isUrlencodedPlain b" | "b \<noteq> 0x20 \<and> \<not> isUrlencodedPlain b"
    by blast
  then show ?thesis
  proof cases
    case 1
    then show ?thesis by (simp add: urlencodedByte_def percentDecode_skip)
  next
    case 2
    then have "b \<noteq> 0x2B" "b \<noteq> 0x25" using isUrlencodedPlain_facts by blast+
    with 2 show ?thesis by (simp add: urlencodedByte_def percentDecode_skip)
  next
    case 3
    let ?h = "hexDigit (unat b div 16)" and ?l = "hexDigit (unat b mod 16)"
    have hb: "unat b div 16 < 16" using unat_byte_bound [of b] by simp
    have lb: "unat b mod 16 < 16" by simp
    have h: "isHexDigit ?h" "hexValue ?h = unat b div 16" "?h \<noteq> 0x2B"
      using hexDigit_facts [OF hb] isUrlencodedPlain_facts(2) by blast+
    have l: "isHexDigit ?l" "hexValue ?l = unat b mod 16" "?l \<noteq> 0x2B"
      using hexDigit_facts [OF lb] isUrlencodedPlain_facts(2) by blast+
    have "percentDecode (0x25 # ?h # ?l # rest) = b # percentDecode rest"
      using h l byte_div_mod [of b] by simp
    with 3 h(3) l(3) show ?thesis by (simp add: urlencodedByte_def)
  qed
qed

lemma percentDecode_urlencoded:
  "percentDecode (map (\<lambda>b. if b = 0x2B then 0x20 else b) (concat (map urlencodedByte bytes)))
     = bytes"
  by (induction bytes) (simp_all add: percentDecode_step)

lemma urlencodedDecodeComponent_inverse:
  "urlencodedDecodeComponent (urlencodedComponent s) = toUSVString s"
  by (simp add: urlencodedDecodeComponent_def urlencodedComponent_def percentDecode_urlencoded
      textEncoderEncode_def utf8_roundtrip toScalarValues_scalar toUSVString_def)

lemma urlencodedByte_safe:
  "\<forall>x \<in> set (urlencodedByte b). isUrlencodedPlain x \<or> x = 0x2B \<or> x = 0x25"
proof -
  have "unat b div 16 < 16" using unat_byte_bound [of b] by simp
  moreover have "unat b mod 16 < 16" by simp
  ultimately show ?thesis
    using hexDigit_facts(1) by (auto simp: urlencodedByte_def)
qed

lemma urlencodedComponent_safe:
  "\<forall>x \<in> set (urlencodedComponent s). isUrlencodedPlain x \<or> x = 0x2B \<or> x = 0x25"
  using urlencodedByte_safe by (auto simp: urlencodedComponent_def)

lemma urlencodedComponent_no_sep:
  shows "0x3D \<notin> set (urlencodedComponent s)" and "0x26 \<notin> set (urlencodedComponent s)"
  using urlencodedComponent_safe [of s] isUrlencodedPlain_facts(4,5) by fastforce+

lemma splitOn_nonempty: "splitOn d xs \<noteq> []"
  by (induction xs) (auto split: list.split)

lemma splitOn_single: "d \<notin> set p \<Longrightarrow> splitOn d p = [p]"
  by (induction p) auto

lemma splitOn_append: "d \<notin> set p \<Longrightarrow> splitOn d (p @ d # rest) = p # splitOn d rest"
  by (induction p) auto

lemma splitOn_intercalate:
  assumes "pieces \<noteq> []" and "\<forall>p \<in> set pieces. d \<notin> set p"
  shows "splitOn d (intercalate [d] pieces) = pieces"
  using assms
proof (induction "[d]" pieces rule: intercalate.induct)
  case 1
  then show ?case by simp
next
  case (2 x)
  then show ?case by (simp add: splitOn_single)
next
  case (3 x y rest)
  then show ?case by (simp add: splitOn_append)
qed

lemma pairBytes_facts:
  shows "pairBytes p \<noteq> []" and "0x26 \<notin> set (pairBytes p)"
    and "\<forall>x \<in> set (pairBytes p). isQueryByte x"
  using urlencodedComponent_no_sep(2) urlencodedComponent_safe
  by (auto simp: pairBytes_def isQueryByte_def)

lemma pairBytes_split:
  shows "takeWhile (\<lambda>b. b \<noteq> 0x3D) (pairBytes p) = urlencodedComponent (fst p)"
    and "drop 1 (dropWhile (\<lambda>b. b \<noteq> 0x3D) (pairBytes p)) = urlencodedComponent (snd p)"
proof -
  have all: "\<And>x. x \<in> set (urlencodedComponent (fst p)) \<Longrightarrow> x \<noteq> 0x3D"
    using urlencodedComponent_no_sep(1) [of "fst p"] by auto
  show "takeWhile (\<lambda>b. b \<noteq> 0x3D) (pairBytes p) = urlencodedComponent (fst p)"
    unfolding pairBytes_def using all by (simp add: takeWhile_append2)
  show "drop 1 (dropWhile (\<lambda>b. b \<noteq> 0x3D) (pairBytes p)) = urlencodedComponent (snd p)"
    unfolding pairBytes_def using all by (simp add: dropWhile_append2)
qed

lemma urlencodedSerialize_bytes: "urlencodedSerialize tuples = map ucast (queryBytes tuples)"
  by (simp add: urlencodedSerialize_def queryBytes_def pairBytes_def [abs_def] case_prod_unfold)

lemma intercalate_all:
  "\<forall>p \<in> set pieces. \<forall>x \<in> set p. P x \<Longrightarrow> \<forall>x \<in> set sep. P x \<Longrightarrow>
     \<forall>x \<in> set (intercalate sep pieces). P x"
  by (induction sep pieces rule: intercalate.induct) auto

lemma queryBytes_safe: "\<forall>x \<in> set (queryBytes tuples). isQueryByte x"
  unfolding queryBytes_def
  using pairBytes_facts(3) by (intro intercalate_all) (auto simp: isQueryByte_def)

lemma isQueryByte_ascii: "isQueryByte x \<Longrightarrow> unat x < 0x80"
  using isUrlencodedPlain_facts(1) by (auto simp: isQueryByte_def)

lemma queryBytes_nonempty: "tuples \<noteq> [] \<Longrightarrow> queryBytes tuples \<noteq> []"
proof (cases tuples)
  case Nil
  then show "tuples \<noteq> [] \<Longrightarrow> ?thesis" by simp
next
  case (Cons p ps)
  then show ?thesis using pairBytes_facts(1) [of p]
    by (cases ps) (simp_all add: queryBytes_def)
qed

lemma textEncoderEncode_serialized:
  "textEncoderEncode (urlencodedSerialize tuples) = queryBytes tuples"
  unfolding urlencodedSerialize_bytes
  using queryBytes_safe isQueryByte_ascii
  by (intro textEncoderEncode_ascii) (auto simp: list_all_iff)

lemma urlencodedParse_serialize:
  "urlencodedParse (urlencodedSerialize tuples) = map usvPair tuples"
proof (cases "tuples = []")
  case True
  then show ?thesis
    by (simp add: urlencodedParse_def textEncoderEncode_serialized queryBytes_def)
next
  case False
  have split: "splitOn 0x26 (queryBytes tuples) = map pairBytes tuples"
    unfolding queryBytes_def using False pairBytes_facts(2)
    by (intro splitOn_intercalate) auto
  have keep: "filter (\<lambda>bytes. bytes \<noteq> []) (map pairBytes tuples) = map pairBytes tuples"
    using pairBytes_facts(1) by (simp add: filter_id_conv)
  show ?thesis
    unfolding urlencodedParse_def textEncoderEncode_serialized split keep
    by (simp add: pairBytes_split [unfolded One_nat_def] urlencodedDecodeComponent_inverse
        usvPair_def)
qed

lemma utf16Encode1_unit: "utf16Encode1 (unat (c :: 16 word)) = [c]"
  using unat_unit_bound [of c] by (simp add: utf16Encode1_def)

lemma replacement_not_ascii: "\<not> unat (of_nat 0xFFFD :: 16 word) < 0x80"
  by simp

lemma toUSVString_Nil: "toUSVString [] = []"
  by (simp add: toUSVString_def fromScalarValues_def)

lemma toUSVString_ascii_fixed:
  "isAsciiString (toUSVString n) \<Longrightarrow> toUSVString n = n"
proof (induction n rule: toScalarValues.induct)
  case 1
  then show ?case by (simp add: toUSVString_Nil)
next
  case (2 c)
  show ?case
  proof (cases "isHighSurrogate (unat c) \<or> isLowSurrogate (unat c)")
    case True
    then have "toUSVString [c] = [of_nat 0xFFFD]"
      by (auto simp: toUSVString_def fromScalarValues_def utf16Encode1_def)
    with 2 show ?thesis by (simp add: isAsciiString_def)
  next
    case False
    then show ?thesis
      by (simp add: toUSVString_def fromScalarValues_def utf16Encode1_unit)
  qed
next
  case (3 c d rest)
  show ?case
  proof (cases "isHighSurrogate (unat c) \<or> isLowSurrogate (unat c)")
    case True
    have "\<not> isAsciiString (toUSVString (c # d # rest))"
    proof (cases "isHighSurrogate (unat c) \<and> isLowSurrogate (unat d)")
      case True
      then have "toUSVString (c # d # rest) = [c, d] @ toUSVString rest"
        using utf16_pair [of c d] by (simp add: toUSVString_def fromScalarValues_def)
      moreover have "\<not> unat c < 0x80" using True by (simp add: isHighSurrogate_def)
      ultimately show ?thesis by (simp add: isAsciiString_def)
    next
      case False
      with True have "toUSVString (c # d # rest) = [of_nat 0xFFFD] @ toUSVString (d # rest)"
        by (auto simp: toUSVString_def fromScalarValues_def utf16Encode1_def)
      then show ?thesis by (simp add: isAsciiString_def)
    qed
    with 3 show ?thesis by simp
  next
    case False
    then have eq: "toUSVString (c # d # rest) = c # toUSVString (d # rest)"
      by (simp add: toUSVString_def fromScalarValues_def utf16Encode1_unit)
    with 3 False show ?thesis by (simp add: isAsciiString_def)
  qed
qed

lemma toUSVString_eq_ascii:
  assumes "isAsciiString d"
  shows "toUSVString n = d \<longleftrightarrow> n = d"
proof
  assume "toUSVString n = d"
  with assms toUSVString_ascii_fixed [of n] show "n = d" by simp
next
  assume "n = d"
  have "toScalarValues d = map unat d"
    using assms by (simp add: isAsciiString_def toScalarValues_ascii)
  then have "toUSVString d = d"
    by (simp add: toUSVString_def fromScalarValues_def utf16Encode1_unit comp_def)
  with \<open>n = d\<close> show "toUSVString n = d" by simp
qed

lemma toUSVString_wellFormed: "isWellFormed t \<Longrightarrow> toUSVString t = t"
  by (simp add: toUSVString_def utf16_roundtrip)

lemma SHARE_PARAM_ascii: "isAsciiString SHARE_PARAM"
  by (simp add: isAsciiString_def SHARE_PARAM_def js_def)

lemma isQueryByte_unat:
  "isQueryByte b \<longleftrightarrow>
     (0x30 \<le> unat b \<and> unat b \<le> 0x39) \<or> (0x41 \<le> unat b \<and> unat b \<le> 0x5A)
     \<or> (0x61 \<le> unat b \<and> unat b \<le> 0x7A)
     \<or> unat b = 0x2A \<or> unat b = 0x2D \<or> unat b = 0x2E \<or> unat b = 0x5F
     \<or> unat b = 0x2B \<or> unat b = 0x25 \<or> unat b = 0x3D \<or> unat b = 0x26"
  by (simp add: isQueryByte_def isUrlencodedPlain_def word_unat_eq_iff)

lemma isQueryByte_codes:
  assumes "isQueryByte b"
  shows "unat b \<noteq> 0x09" and "unat b \<noteq> 0x0A" and "unat b \<noteq> 0x0D" and "unat b \<noteq> 0x23"
    and "unat b \<noteq> 0x3F" and "\<not> inFragmentPercentEncodeSet (unat b)"
proof -
  define u where "u = unat b"
  have q: "(0x30 \<le> u \<and> u \<le> 0x39) \<or> (0x41 \<le> u \<and> u \<le> 0x5A) \<or> (0x61 \<le> u \<and> u \<le> 0x7A)
     \<or> u = 0x2A \<or> u = 0x2D \<or> u = 0x2E \<or> u = 0x5F \<or> u = 0x2B \<or> u = 0x25 \<or> u = 0x3D
     \<or> u = 0x26"
    using assms unfolding isQueryByte_unat u_def by blast
  show "unat b \<noteq> 0x09" and "unat b \<noteq> 0x0A" and "unat b \<noteq> 0x0D" and "unat b \<noteq> 0x23"
    and "unat b \<noteq> 0x3F"
    using q unfolding u_def [symmetric] by linarith+
  show "\<not> inFragmentPercentEncodeSet (unat b)"
    using q unfolding u_def [symmetric] inFragmentPercentEncodeSet_def by linarith
qed

lemma ucast_query_unit:
  assumes "isQueryByte b"
  shows "(ucast b :: 16 word) \<noteq> 0x09" and "(ucast b :: 16 word) \<noteq> 0x0A"
    and "(ucast b :: 16 word) \<noteq> 0x0D" and "(ucast b :: 16 word) \<noteq> 0x23"
    and "(ucast b :: 16 word) \<noteq> 0x3F"
  using isQueryByte_codes [OF assms] by (simp_all add: word_unat_eq_iff unat_ucast_byte)

lemma of_nat_unat_ucast: "(of_nat (unat (b :: byte)) :: 16 word) = ucast b"
  by (simp add: word_unat_eq_iff unat_ucast_byte unat_of_nat take_bit_nat_eq_self
      less_trans [OF unat_byte_bound])

lemma fragmentEncode_query:
  assumes "\<forall>x \<in> set bytes. isQueryByte x"
  shows "fragmentEncode (map ucast bytes) = map ucast bytes"
proof -
  have ascii: "list_all (\<lambda>c. unat c < 0x80) (map ucast bytes :: 16 word list)"
    using assms isQueryByte_ascii by (auto simp: list_all_iff unat_ucast_byte)
  have sv: "toScalarValues (map ucast bytes) = map unat bytes"
    using ascii by (simp add: toScalarValues_ascii unat_ucast_byte comp_def)
  have step: "(if inFragmentPercentEncodeSet (unat x)
               then concat (map percentEncodeByte (utf8Encode1 (unat x)))
               else utf16Encode1 (unat x)) = [ucast x]" if "x \<in> set bytes" for x
  proof -
    have "\<not> inFragmentPercentEncodeSet (unat x)"
      using assms that isQueryByte_codes(6) by blast
    moreover have "utf16Encode1 (unat x) = [ucast x]"
      using unat_byte_bound [of x] by (simp add: utf16Encode1_def of_nat_unat_ucast)
    ultimately show ?thesis by simp
  qed
  have "concat (map (\<lambda>cp. if inFragmentPercentEncodeSet cp
                   then concat (map percentEncodeByte (utf8Encode1 cp))
                   else utf16Encode1 cp) (map unat bytes)) = map ucast bytes"
    using step by (induction bytes) simp_all
  then show ?thesis by (simp add: fragmentEncode_def sv)
qed

lemma setHash_serialized:
  assumes "tuples \<noteq> []"
  shows "setHash (urlencodedSerialize tuples) url
           = url\<lparr>url_fragment := Some (urlencodedSerialize tuples)\<rparr>"
    and "urlencodedSerialize tuples \<noteq> []"
    and "hd (urlencodedSerialize tuples) \<noteq> 0x3F"
proof -
  let ?bs = "queryBytes tuples"
  have safe: "\<forall>x \<in> set ?bs. isQueryByte x" by (rule queryBytes_safe)
  have ne: "?bs \<noteq> []" using assms by (rule queryBytes_nonempty)
  then have hdq: "isQueryByte (hd ?bs)" using safe by simp
  have hd_eq: "hd (map ucast ?bs :: 16 word list) = ucast (hd ?bs)"
    using ne by (simp add: hd_map)
  show "urlencodedSerialize tuples \<noteq> []" using ne by (simp add: urlencodedSerialize_bytes)
  show "hd (urlencodedSerialize tuples) \<noteq> 0x3F"
    unfolding urlencodedSerialize_bytes hd_eq using ucast_query_unit(5) [OF hdq] .
  have nohash: "hd (map ucast ?bs :: 16 word list) \<noteq> 0x23"
    unfolding hd_eq using ucast_query_unit(4) [OF hdq] .
  have keep: "filter (\<lambda>c. c \<noteq> 0x09 \<and> c \<noteq> 0x0A \<and> c \<noteq> 0x0D) (map ucast ?bs :: 16 word list)
                = map ucast ?bs"
    using safe ucast_query_unit(1,2,3) by (auto simp: filter_id_conv)
  show "setHash (urlencodedSerialize tuples) url
           = url\<lparr>url_fragment := Some (urlencodedSerialize tuples)\<rparr>"
    unfolding urlencodedSerialize_bytes setHash_def Let_def
    using ne nohash by (simp add: keep fragmentEncode_query [OF safe])
qed

lemma paramsGet_delete: "paramsGet name (paramsDelete name tuples) = None"
  by (induction tuples) (auto simp: paramsDelete_def)

lemma paramsGet_replace:
  "list_ex (\<lambda>p. fst p = name) tuples \<Longrightarrow> paramsGet name (paramsReplace name val tuples) = Some val"
  by (induction tuples) auto

lemma paramsGet_append_new:
  "\<not> list_ex (\<lambda>p. fst p = name) tuples \<Longrightarrow> paramsGet name (tuples @ [(name, val)]) = Some val"
  by (induction tuples) auto

lemma paramsSet_facts:
  assumes "isAsciiString name"
  shows "paramsGet name (paramsSet name val tuples) = Some (toUSVString val)"
    and "paramsSet name val tuples \<noteq> []"
proof -
  have n: "toUSVString name = name" using assms toUSVString_eq_ascii by blast
  show "paramsGet name (paramsSet name val tuples) = Some (toUSVString val)"
    by (simp add: paramsSet_def n paramsGet_replace paramsGet_append_new)
  have "paramsReplace name v tuples \<noteq> []" if "list_ex (\<lambda>p. fst p = name) tuples" for v
    using that by (cases tuples) (auto split: if_splits)
  then show "paramsSet name val tuples \<noteq> []"
    by (simp add: paramsSet_def n)
qed

lemma paramsGet_usvPair:
  assumes "isAsciiString name"
  shows "paramsGet name (map usvPair tuples) = map_option toUSVString (paramsGet name tuples)"
proof (induction tuples)
  case Nil
  then show ?case by simp
next
  case (Cons p tuples)
  obtain n v where p: "p = (n, v)" by (cases p)
  have iff: "toUSVString n = name \<longleftrightarrow> n = name"
    using assms by (rule toUSVString_eq_ascii)
  show ?case
  proof (cases "n = name")
    case True
    then have "toUSVString n = name" using iff by simp
    with True show ?thesis by (simp add: p usvPair_def)
  next
    case False
    then have "toUSVString n \<noteq> name" using iff by simp
    with False Cons show ?thesis by (simp add: p usvPair_def)
  qed
qed

lemma ascii_wellFormed: "list_all (\<lambda>c. unat c < 0x80) s \<Longrightarrow> isWellFormed s"
  by (induction s rule: isWellFormed.induct)
    (simp_all add: isHighSurrogate_def isLowSurrogate_def)

lemma isBase64UrlChar_ascii: "isBase64UrlChar c \<Longrightarrow> unat c < 0x80"
  by (auto simp: isBase64UrlChar_def)

lemma shareToken_wellFormed:
  assumes "isShareToken token"
  shows "isWellFormed token"
proof -
  have pre: "take (length SHARE_PREFIX) token = SHARE_PREFIX"
    using assms by (simp add: isShareToken_def startsWith_def)
  have "token = SHARE_PREFIX @ drop (length SHARE_PREFIX) token"
    using append_take_drop_id [of "length SHARE_PREFIX" token] pre by simp
  moreover have "list_all (\<lambda>c. unat c < 0x80) SHARE_PREFIX"
    by (simp add: SHARE_PREFIX_def SHARE_VERSION_def SHARE_ALGORITHM_def js_def)
  moreover have "list_all (\<lambda>c. unat c < 0x80) (drop (length SHARE_PREFIX) token)"
    using assms isBase64UrlChar_ascii by (auto simp: isShareToken_def slice_def list_all_iff)
  ultimately have "list_all (\<lambda>c. unat c < 0x80) token"
    by (metis list_all_append)
  then show ?thesis by (rule ascii_wellFormed)
qed

lemma write_shape:
  "\<exists>tuples. paramsGet SHARE_PARAM tuples = Some (toUSVString token) \<and> tuples \<noteq> [] \<and>
     urlWithToken url token =
       url\<lparr>url_fragment := Some (urlencodedSerialize tuples),
           url_query :=
             (if urlencodedSerialize (paramsDelete SHARE_PARAM (searchParams url)) = [] then None
              else Some (urlencodedSerialize (paramsDelete SHARE_PARAM (searchParams url))))\<rparr>"
proof -
  define tuples where "tuples =
    paramsSet SHARE_PARAM token
      (newURLSearchParams
         (if startsWith (getHash url) (js ''#'') then slice (getHash url) 1 else getHash url))"
  have g: "paramsGet SHARE_PARAM tuples = Some (toUSVString token)" and ne: "tuples \<noteq> []"
    unfolding tuples_def using paramsSet_facts [OF SHARE_PARAM_ascii] by blast+
  have p: "toUSVString SHARE_PARAM = SHARE_PARAM"
    using toUSVString_eq_ascii [OF SHARE_PARAM_ascii] by blast
  have "urlWithToken url token =
          searchParamsDelete SHARE_PARAM (setHash (urlencodedSerialize tuples) url)"
    by (simp add: urlWithToken_def tuples_def Let_def)
  also have "\<dots> = searchParamsDelete SHARE_PARAM
                     (url\<lparr>url_fragment := Some (urlencodedSerialize tuples)\<rparr>)"
    by (simp only: setHash_serialized(1) [OF ne])
  finally have "urlWithToken url token =
       url\<lparr>url_fragment := Some (urlencodedSerialize tuples),
           url_query :=
             (if urlencodedSerialize (paramsDelete SHARE_PARAM (searchParams url)) = [] then None
              else Some (urlencodedSerialize (paramsDelete SHARE_PARAM (searchParams url))))\<rparr>"
    by (simp add: searchParamsDelete_def searchParams_def p Let_def)
  with g ne show ?thesis by blast
qed

lemma url_token_roundtrip_general:
  assumes "isWellFormed token"
  shows "tokenInUrl (urlWithToken url token) = Some token"
    and "paramsGet SHARE_PARAM (searchParams (urlWithToken url token)) = None"
    and "url_prefix (urlWithToken url token) = url_prefix url"
proof -
  let ?q = "urlencodedSerialize (paramsDelete SHARE_PARAM (searchParams url))"
  obtain tuples where g: "paramsGet SHARE_PARAM tuples = Some (toUSVString token)"
    and ne: "tuples \<noteq> []"
    and w: "urlWithToken url token =
       url\<lparr>url_fragment := Some (urlencodedSerialize tuples),
           url_query := (if ?q = [] then None else Some ?q)\<rparr>"
    using write_shape by blast
  let ?ser = "urlencodedSerialize tuples"
  have ser: "?ser \<noteq> []" "hd ?ser \<noteq> 0x3F" using setHash_serialized(2,3) [OF ne] by blast+
  have hash: "getHash (urlWithToken url token) = 0x23 # ?ser"
    using ser(1) by (simp add: w getHash_def)
  have init: "newURLSearchParams ?ser = map usvPair tuples"
    using ser by (simp add: newURLSearchParams_def urlencodedParse_serialize)
  have "paramsGet SHARE_PARAM (map usvPair tuples) = Some (toUSVString (toUSVString token))"
    by (simp add: paramsGet_usvPair [OF SHARE_PARAM_ascii] g)
  then have found: "paramsGet SHARE_PARAM (map usvPair tuples) = Some token"
    using assms by (simp add: toUSVString_wellFormed)
  show "tokenInUrl (urlWithToken url token) = Some token"
    unfolding tokenInUrl_def hash Let_def
    by (simp add: startsWith_def slice_def js_def init found)
  have "searchParams (urlWithToken url token) = urlencodedParse ?q"
    by (simp add: w searchParams_def)
  then have "searchParams (urlWithToken url token)
               = map usvPair (paramsDelete SHARE_PARAM (searchParams url))"
    by (simp add: urlencodedParse_serialize)
  then show "paramsGet SHARE_PARAM (searchParams (urlWithToken url token)) = None"
    by (simp add: paramsGet_usvPair [OF SHARE_PARAM_ascii] paramsGet_delete)
  show "url_prefix (urlWithToken url token) = url_prefix url"
    by (simp add: w)
qed

lemma writeDiagramTokenToUrl_heap:
  "writeDiagramTokenToUrl heap url token = (length heap, heap @ [urlWithToken (heap ! url) token])"
  by (simp add: writeDiagramTokenToUrl_def urlWithToken_def Let_def)

lemma readDiagramTokenFromUrl_heap:
  "readDiagramTokenFromUrl heap url = tokenInUrl (heap ! url)"
  by (simp add: readDiagramTokenFromUrl_def tokenInUrl_def)

text \<open>
  C10. For a share token and a reference \<open>url\<close> to a URL object: \<open>writeDiagramTokenToUrl\<close>
  returns a reference to a URL from which \<open>readDiagramTokenFromUrl\<close> reads the token
  back; the query of that URL has no parameter \<open>diagram\<close>; and the object behind \<open>url\<close>,
  like every object that existed before the call, is as it was.
\<close>

theorem url_token_roundtrip:
  assumes "isShareToken token" and "url < length heap"
  shows "(case writeDiagramTokenToUrl heap url token of
            (nextUrl, heap') \<Rightarrow>
              readDiagramTokenFromUrl heap' nextUrl = Some token
              \<and> paramsGet SHARE_PARAM (searchParams (heap' ! nextUrl)) = None
              \<and> heap' ! url = heap ! url
              \<and> take (length heap) heap' = heap)"
  using url_token_roundtrip_general(1,2) [OF shareToken_wellFormed [OF assms(1)]] assms(2)
  by (simp add: writeDiagramTokenToUrl_heap readDiagramTokenFromUrl_heap nth_append)

theorem url_token_roundtrip_witness:
  "(let heap = [\<lparr>url_prefix = js ''https://example.org/studio/'',
                 url_query = Some (js ''diagram=v1.d.old&theme=nord''),
                 url_fragment = Some (js ''a=b c&diagram=zzz'')\<rparr>];
        token = js ''v1.d.eAEBCAD3_2dyYXBoIFREDcACyw''
    in isShareToken token \<and> (0::nat) < length heap
       \<and> fst (writeDiagramTokenToUrl heap 0 token) = 1
       \<and> readDiagramTokenFromUrl (snd (writeDiagramTokenToUrl heap 0 token)) 1 = Some token
       \<and> paramsGet SHARE_PARAM (searchParams (snd (writeDiagramTokenToUrl heap 0 token) ! 1)) = None
       \<and> snd (writeDiagramTokenToUrl heap 0 token) ! 0 = heap ! 0)"
proof -
  let ?heap = "[\<lparr>url_prefix = js ''https://example.org/studio/'',
                 url_query = Some (js ''diagram=v1.d.old&theme=nord''),
                 url_fragment = Some (js ''a=b c&diagram=zzz'')\<rparr>]"
  have tok: "isShareToken (js ''v1.d.eAEBCAD3_2dyYXBoIFREDcACyw'')"
    by (simp add: isShareToken_def isBase64UrlChar_def startsWith_def slice_def SHARE_PREFIX_def
        SHARE_VERSION_def SHARE_ALGORITHM_def js_def)
  have ref: "(0::nat) < length ?heap" by simp
  have new: "fst (writeDiagramTokenToUrl ?heap 0 (js ''v1.d.eAEBCAD3_2dyYXBoIFREDcACyw'')) = 1"
    by (simp add: writeDiagramTokenToUrl_def Let_def)
  show ?thesis
    using tok ref new url_token_roundtrip [OF tok ref]
    by (simp add: Let_def case_prod_unfold)
qed

end
